theory Spec2Isabelle
  imports Complex_Main "HOL-Library.Word" "HOL-Library.Monad_Syntax"
begin

unbundle bit_operations_syntax

section \<open>The bit stream (bit.h, bit.c)\<close>

text \<open>
  An \<^verbatim>\<open>unsigned char\<close> is an 8-bit word. The C arrays are modelled as stores: total
  functions from the offset inside the array to the element. C does not check an index,
  so an access outside the allocation reads or writes the neighbouring memory; the
  store has a value at every offset and what \<^verbatim>\<open>malloc\<close> left in the block is a
  parameter of every allocating function. Array indices, sizes and counters
  (\<^verbatim>\<open>int\<close>, \<^verbatim>\<open>size_t\<close>) are natural numbers: they are never negative in the code
  below. Their 32-bit range is modelled where the properties reach it, at the size of
  the buffer of \<^verbatim>\<open>encode\<close>; the trees the properties speak of have at most 14 levels
  there, and no other \<^verbatim>\<open>int\<close> of the program leaves its range on them.
\<close>

type_synonym u8 = "8 word"

text \<open>
  \<^verbatim>\<open>typedef struct { unsigned char *start; unsigned char *ptr; size_t capa; void *address; } BitStream;\<close>
  The field \<^verbatim>\<open>address\<close> is the base of the allocation: \<open>mem\<close> holds the bytes found
  from there on, and \<open>start\<close> and \<open>ptr\<close> are the offsets of the two pointers from it.
  There is one \<open>capa\<close>, shared by the writer and the reader. \<open>allocated\<close> is the
  number of bytes of the block \<^verbatim>\<open>malloc\<close> returned; the C structure does not keep it and
  no function of bit.c compares a pointer with it. A byte at an offset of \<open>allocated\<close> or
  more lies outside the block: C leaves an access to it undefined, the store holds
  the neighbouring memory there, and the properties below say when a stream stays
  inside its block.
\<close>

record BitStream =
  mem :: "nat \<Rightarrow> u8"
  start :: nat
  ptr :: nat
  capa :: nat
  allocated :: nat

text \<open>
  The two ways a stream operation stops the program with \<^verbatim>\<open>exit(EXIT_FAILURE)\<close>:
  \<^verbatim>\<open>read_n_bits\<close> when fewer bits than requested were read, \<^verbatim>\<open>push_n_bits\<close> when
  fewer than requested were written. \<open>IntOverflow\<close> stands for an \<^verbatim>\<open>int\<close> product that
  exceeds \<^verbatim>\<open>INT_MAX\<close>, where the behaviour of the C program is undefined.
\<close>

datatype error = Underflow | WriteFailure | IntOverflow

definition initBitStream :: "nat \<Rightarrow> (nat \<Rightarrow> u8) \<Rightarrow> BitStream" where
  \<comment> \<open>\<open>sz\<close> bytes are allocated; \<open>m\<close> is what the fresh block and the memory after it contain\<close>
  "initBitStream sz m = \<lparr>mem = m, start = 0, ptr = 0, capa = 8, allocated = sz\<rparr>"

definition getbit :: "u8 \<Rightarrow> nat \<Rightarrow> u8" where
  "getbit byte b = drop_bit b byte AND 1"

definition setbit :: "u8 \<Rightarrow> nat \<Rightarrow> u8 \<Rightarrow> u8" where
  "setbit byte b valb =
     (if valb \<noteq> 0 then byte OR push_bit b 1 else byte AND NOT (push_bit b 1))"

text \<open>One round of the \<^verbatim>\<open>for\<close> loop of \<^verbatim>\<open>pushbits\<close>, on the stream and \<^verbatim>\<open>bits_written\<close>.\<close>

definition pushbits_step :: "u8 \<Rightarrow> nat \<Rightarrow> nat \<Rightarrow> BitStream \<times> nat \<Rightarrow> BitStream \<times> nat" where
  "pushbits_step src nbit i = (\<lambda>(cur, bits_written).
     let cur1 = (if capa cur = 0 then cur\<lparr>ptr := ptr cur + 1, capa := 8\<rparr> else cur);
         bit_to_write = getbit src (nbit - 1 - i);
         cur2 = cur1\<lparr>mem := (mem cur1)
                   (ptr cur1 := setbit (mem cur1 (ptr cur1)) (capa cur1 - 1) bit_to_write)\<rparr>
     in (cur2\<lparr>capa := capa cur2 - 1\<rparr>, bits_written + 1))"

definition pushbits :: "BitStream \<Rightarrow> u8 \<Rightarrow> nat \<Rightarrow> BitStream \<times> nat" where
  "pushbits cur src nbit = fold (pushbits_step src nbit) [0..<nbit] (cur, 0)"

text \<open>One round of the loop of \<^verbatim>\<open>pullbits\<close>, on the stream, \<^verbatim>\<open>*dest\<close> and \<^verbatim>\<open>bits_readed\<close>.\<close>

definition pullbits_step :: "nat \<Rightarrow> nat \<Rightarrow> BitStream \<times> u8 \<times> nat \<Rightarrow> BitStream \<times> u8 \<times> nat" where
  "pullbits_step nbit i = (\<lambda>(cur, dest, bits_readed).
     let cur1 = (if capa cur = 0 then cur\<lparr>start := start cur + 1, capa := 8\<rparr> else cur);
         bit_to_read = getbit (mem cur1 (start cur1)) (capa cur1 - 1)
     in (cur1\<lparr>capa := capa cur1 - 1\<rparr>, setbit dest (nbit - 1 - i) bit_to_read, bits_readed + 1))"

definition pullbits :: "BitStream \<Rightarrow> nat \<Rightarrow> BitStream \<times> u8 \<times> nat" where
  "pullbits cur nbit = fold (pullbits_step nbit) [0..<nbit] (cur, 0, 0)"

definition read_n_bits :: "BitStream \<Rightarrow> nat \<Rightarrow> error + (BitStream \<times> u8)" where
  "read_n_bits stream n =
     (case pullbits stream n of (stream', dest, bits_readed) \<Rightarrow>
        if bits_readed \<noteq> n then Inl Underflow else Inr (stream', dest))"

definition push_n_bits :: "BitStream \<Rightarrow> u8 \<Rightarrow> nat \<Rightarrow> error + BitStream" where
  "push_n_bits stream src n =
     (case pushbits stream src n of (stream', bits_written) \<Rightarrow>
        if bits_written \<noteq> n then Inl WriteFailure else Inr stream')"

definition finishBitStream :: "BitStream \<Rightarrow> error + BitStream" where
  "finishBitStream stream =
     (if capa stream \<noteq> 8 then
        (case push_n_bits stream 0 (capa stream) of
           Inl e \<Rightarrow> Inl e
         | Inr stream' \<Rightarrow> Inr (stream'\<lparr>ptr := ptr stream' + 1, capa := 8\<rparr>))
      else Inr stream)"

section \<open>The quadtree and the image (quadtree.h, image.h)\<close>

text \<open>
  A \<^verbatim>\<open>double\<close> is modelled by the real number it denotes, or one of the three special
  values of IEEE 754 arithmetic: the two infinities and NaN, the value of \<^verbatim>\<open>0.0 / 0.0\<close>.
  Rounding and overflow are not modelled, and zero has no sign (the program divides by
  positive zero only).
\<close>

datatype double = Fin real | PInf | NInf | NaN

definition signed_inf :: "real \<Rightarrow> double" where
  "signed_inf s = (if s = 0 then NaN else if 0 < s then PInf else NInf)"

fun fsign :: "double \<Rightarrow> real" where
  "fsign (Fin a) = sgn a"
| "fsign PInf = 1"
| "fsign NInf = - 1"
| "fsign NaN = 0"

fun fadd :: "double \<Rightarrow> double \<Rightarrow> double" where
  "fadd NaN b = NaN"
| "fadd a NaN = NaN"
| "fadd (Fin a) (Fin b) = Fin (a + b)"
| "fadd PInf NInf = NaN"
| "fadd NInf PInf = NaN"
| "fadd (Fin a) b = b"
| "fadd a b = a"

fun fmul :: "double \<Rightarrow> double \<Rightarrow> double" where
  "fmul NaN b = NaN"
| "fmul a NaN = NaN"
| "fmul (Fin a) (Fin b) = Fin (a * b)"
| "fmul a b = signed_inf (fsign a * fsign b)"

fun fdiv :: "double \<Rightarrow> double \<Rightarrow> double" where
  "fdiv NaN b = NaN"
| "fdiv a NaN = NaN"
| "fdiv (Fin a) (Fin b) = (if b = 0 then signed_inf a else Fin (a / b))"
| "fdiv (Fin a) b = Fin 0"
| "fdiv a (Fin b) = signed_inf (fsign a * (if b < 0 then - 1 else 1))"
| "fdiv a b = NaN"

fun fsqrt :: "double \<Rightarrow> double" where
  "fsqrt (Fin a) = (if a < 0 then NaN else Fin (sqrt a))"
| "fsqrt PInf = PInf"
| "fsqrt a = NaN"

fun fgt :: "double \<Rightarrow> double \<Rightarrow> bool" where
  "fgt NaN b = False"
| "fgt a NaN = False"
| "fgt (Fin a) (Fin b) = (b < a)"
| "fgt PInf b = (b \<noteq> PInf)"
| "fgt a NInf = (a \<noteq> NInf)"
| "fgt a b = False"

text \<open>
  \<^verbatim>\<open>typedef struct { unsigned char moyenne; unsigned char epsilon; unsigned char u; double v; } Node;\<close>
  \<^verbatim>\<open>typedef struct { Node *nodes; int total_nodes; int levels; double medvar; double maxvar; } Quadtree;\<close>
  \<^verbatim>\<open>typedef struct { int width; int image_size; int max_val; unsigned char *image; } Image;\<close>
\<close>

record Node =
  moyenne :: u8
  epsilon :: u8
  u :: u8
  v :: double

record Quadtree =
  nodes :: "nat \<Rightarrow> Node"
  total_nodes :: nat
  levels :: nat
  medvar :: double
  maxvar :: double

record Image =
  width :: nat
  image_size :: nat
  max_val :: nat
  image :: "nat \<Rightarrow> u8"

definition is_leaf :: "Quadtree \<Rightarrow> nat \<Rightarrow> bool" where
  "is_leaf quadtree index \<longleftrightarrow>
     int index \<ge> int (total_nodes quadtree) - 2 ^ (2 * levels quadtree)"

definition create_empty_quadtree :: "nat \<Rightarrow> (nat \<Rightarrow> Node) \<Rightarrow> Quadtree" where
  \<comment> \<open>\<open>nodes0\<close> is what the freshly allocated node array contains\<close>
  "create_empty_quadtree lv nodes0 =
     (let total = fold (\<lambda>i total. total + 2 ^ (2 * i)) [0..<lv + 1] 0
      in \<lparr>nodes = nodes0, total_nodes = total, levels = lv, medvar = Fin 0, maxvar = Fin 0\<rparr>)"

definition allocate_image :: "nat \<Rightarrow> nat \<Rightarrow> nat \<Rightarrow> (nat \<Rightarrow> u8) \<Rightarrow> Image" where
  \<comment> \<open>\<open>pixels0\<close> is what the freshly allocated pixel array contains\<close>
  "allocate_image w isz mv pixels0 =
     \<lparr>width = w, image_size = isz, max_val = mv, image = pixels0\<rparr>"

section \<open>Building the quadtree (encode.c)\<close>

text \<open>
  The part of \<^verbatim>\<open>build_quadtree_rec\<close> that follows the four recursive calls: it reads the
  four children of \<open>index\<close> and fills the node, and updates \<open>medvar\<close> and \<open>maxvar\<close>.
\<close>

definition build_node :: "Quadtree \<Rightarrow> nat \<Rightarrow> Quadtree" where
  "build_node quadtree index =
     (let child_moyennes = map (\<lambda>i. moyenne (nodes quadtree (4 * index + i + 1))) [0, 1, 2, 3];
          child_u = map (\<lambda>i. u (nodes quadtree (4 * index + i + 1))) [0, 1, 2, 3];
          child_v = map (\<lambda>i. v (nodes quadtree (4 * index + i + 1))) [0, 1, 2, 3];
          somme_moyennes = sum_list (map unat child_moyennes);
          moy = (of_nat (somme_moyennes div 4) :: u8);
          eps = (of_nat (somme_moyennes mod 4) :: u8);
          somme_v = fold (\<lambda>i somme_v.
                      let m_diff = Fin (real_of_int (uint moy - uint (child_moyennes ! i)))
                      in fadd somme_v (fadd (fmul (child_v ! i) (child_v ! i)) (fmul m_diff m_diff)))
                    [0, 1, 2, 3] (Fin 0);
          var = fdiv (fsqrt somme_v) (Fin 4);
          unif = (if child_moyennes ! 0 = child_moyennes ! 1 \<and>
                     child_moyennes ! 1 = child_moyennes ! 2 \<and>
                     child_moyennes ! 2 = child_moyennes ! 3 \<and>
                     child_u ! 0 = 1 \<and> child_u ! 1 = 1 \<and> child_u ! 2 = 1 \<and> child_u ! 3 = 1
                  then 1 else 0)
      in quadtree\<lparr>nodes := (nodes quadtree)
                      (index := \<lparr>moyenne = moy, epsilon = eps, u = unif, v = var\<rparr>),
                   medvar := fadd (medvar quadtree) var,
                   maxvar := (if fgt var (maxvar quadtree) then var else maxvar quadtree)\<rparr>)"

text \<open>
  \<^verbatim>\<open>build_quadtree_rec\<close> halves \<open>sz\<close> until it is 1. With \<open>sz = 0\<close> it calls itself with
  \<open>sz = 0\<close> again and never returns: the result is then \<open>None\<close>.
\<close>

partial_function (option) build_quadtree_rec ::
    "Quadtree \<Rightarrow> Image \<Rightarrow> nat \<Rightarrow> nat \<Rightarrow> nat \<Rightarrow> nat \<Rightarrow> Quadtree option" where
  "build_quadtree_rec quadtree img sz index x y =
     (if sz = 1
      then Some (quadtree\<lparr>nodes := (nodes quadtree)
                   (index := \<lparr>moyenne = image img (y * width img + x), epsilon = 0, u = 1,
                              v = Fin 0\<rparr>)\<rparr>)
      else do {
        let child_size = sz div 2;
        q1 \<leftarrow> build_quadtree_rec quadtree img child_size (4 * index + 1) x y;
        q2 \<leftarrow> build_quadtree_rec q1 img child_size (4 * index + 2) (x + child_size) y;
        q3 \<leftarrow> build_quadtree_rec q2 img child_size (4 * index + 3) (x + child_size) (y + child_size);
        q4 \<leftarrow> build_quadtree_rec q3 img child_size (4 * index + 4) x (y + child_size);
        Some (build_node q4 index)
      })"

declare build_quadtree_rec.simps [code]

text \<open>
  \<^verbatim>\<open>int n = log2(image->width)\<close>: the binary logarithm, truncated. For a width of 0 the C
  conversion is undefined; the recursion that follows does not return in that case.
\<close>

fun ilog2 :: "nat \<Rightarrow> nat" where
  "ilog2 w = (if w < 2 then 0 else Suc (ilog2 (w div 2)))"

declare ilog2.simps [simp del]

definition build_quadtree_from_image :: "Image \<Rightarrow> (nat \<Rightarrow> Node) \<Rightarrow> Quadtree option" where
  "build_quadtree_from_image img nodes0 =
     (let n = ilog2 (width img);
          quadtree = create_empty_quadtree n nodes0;
          child_size = width img
      in case build_quadtree_rec quadtree img child_size 0 0 0 of
           None \<Rightarrow> None
         | Some q \<Rightarrow>
             Some (q\<lparr>medvar := fdiv (medvar q)
                (Fin (real_of_int (int (total_nodes q) - 2 ^ (2 * levels q))))\<rparr>))"

section \<open>The lossy filter (encode.c, and its call in main)\<close>

text \<open>
  \<^verbatim>\<open>filtrage\<close> is always called with \<^verbatim>\<open>node = &quadtree->nodes[index]\<close>; the model reads
  and writes the node through \<open>index\<close>. On a node that is not uniform it descends to the
  children without asking whether the node is a leaf; if it never meets a uniform node it
  does not return, and the result is \<open>None\<close>.
\<close>

partial_function (option) filtrage ::
    "Quadtree \<Rightarrow> nat \<Rightarrow> double \<Rightarrow> double \<Rightarrow> (nat \<times> Quadtree) option" where
  "filtrage quadtree index sigma alpha =
     (if u (nodes quadtree index) \<noteq> 0 then Some (1, quadtree)
      else do {
        (r1, q1) \<leftarrow> filtrage quadtree (4 * index + 1) (fmul sigma alpha) alpha;
        (r2, q2) \<leftarrow> filtrage q1 (4 * index + 2) (fmul sigma alpha) alpha;
        (r3, q3) \<leftarrow> filtrage q2 (4 * index + 3) (fmul sigma alpha) alpha;
        (r4, q4) \<leftarrow> filtrage q3 (4 * index + 4) (fmul sigma alpha) alpha;
        let s = r1 + r2 + r3 + r4 in
        if s < 4 \<or> fgt (v (nodes q4 index)) sigma then Some (0, q4)
        else Some (1, q4\<lparr>nodes := (nodes q4)
                         (index := (nodes q4 index)\<lparr>epsilon := 0, u := 1\<rparr>)\<rparr>)
      })"

declare filtrage.simps [code]

text \<open>
  The filtering step of \<^verbatim>\<open>main\<close> (quadtree.c):
  \<^verbatim>\<open>if (alpha) filtrage(quadtree, quadtree->nodes, 0, quadtree->medvar / quadtree->maxvar, alpha);\<close>
  With \<open>alpha\<close> zero the tree is not filtered. The number \<^verbatim>\<open>filtrage\<close> returns is dropped.
\<close>

definition main_filtrage :: "Quadtree \<Rightarrow> double \<Rightarrow> Quadtree option" where
  "main_filtrage quadtree alpha =
     (if alpha = Fin 0 then Some quadtree
      else map_option snd
             (filtrage quadtree 0 (fdiv (medvar quadtree) (maxvar quadtree)) alpha))"

section \<open>Encoding (encode.c)\<close>

definition and_then :: "error + 'a \<Rightarrow> ('a \<Rightarrow> error + 'b) \<Rightarrow> error + 'b" where
  \<comment> \<open>sequencing: a failed step ends the program\<close>
  "and_then r f = (case r of Inl e \<Rightarrow> Inl e | Inr a \<Rightarrow> f a)"

definition write_node :: "BitStream \<Rightarrow> Node \<Rightarrow> nat \<Rightarrow> error + BitStream" where
  "write_node stream node index =
     and_then (if index mod 4 \<noteq> 0 \<or> index = 0 then push_n_bits stream (moyenne node) 8
               else Inr stream) (\<lambda>s1.
     and_then (push_n_bits s1 (epsilon node) 2) (\<lambda>s2.
     if epsilon node = 0 then push_n_bits s2 (u node) 1 else Inr s2))"

definition write_leaf :: "BitStream \<Rightarrow> Node \<Rightarrow> nat \<Rightarrow> error + BitStream" where
  "write_leaf stream node index =
     (if index mod 4 \<noteq> 0 then push_n_bits stream (moyenne node) 8 else Inr stream)"

text \<open>The body of the loop of \<^verbatim>\<open>encode\<close>, for node \<open>i\<close>.\<close>

definition encode_node :: "Quadtree \<Rightarrow> nat \<Rightarrow> BitStream \<Rightarrow> error + BitStream" where
  "encode_node quadtree i stream =
     (let current_node = nodes quadtree i in
      if i = 0 then write_node stream current_node i
      else
        let current_node_parent = nodes quadtree ((i - 1) div 4) in
        if u current_node_parent \<noteq> 0 then Inr stream
        else if is_leaf quadtree i then write_leaf stream current_node i
        else write_node stream current_node i)"

text \<open>
  \<^verbatim>\<open>encode\<close> allocates \<^verbatim>\<open>quadtree->total_nodes * 2\<close> bytes, a product of two \<^verbatim>\<open>int\<close> (of
  32 bits): above \<^verbatim>\<open>INT_MAX\<close> = 2147483647 the product is undefined. Nothing in the
  function compares what it writes with that size.
\<close>

definition encode :: "Quadtree \<Rightarrow> (nat \<Rightarrow> u8) \<Rightarrow> error + BitStream" where
  \<comment> \<open>\<open>m\<close> is what the freshly allocated buffer and the memory after it contain\<close>
  "encode quadtree m =
     (if 2147483647 < total_nodes quadtree * 2 then Inl IntOverflow
      else
        and_then (push_n_bits (initBitStream (total_nodes quadtree * 2) m)
                    (of_nat (levels quadtree)) 8) (\<lambda>stream.
        and_then (fold (\<lambda>i r. and_then r (encode_node quadtree i))
                    [0..<total_nodes quadtree] (Inr stream))
          finishBitStream))"

section \<open>Decoding and painting (decode.c)\<close>

definition read_u :: "BitStream \<Rightarrow> Node \<Rightarrow> error + (BitStream \<times> Node)" where
  \<comment> \<open>\<^verbatim>\<open>!node->epsilon ? read_n_bits(stream, &node->u, 1) : (node->u = 0)\<close>\<close>
  "read_u stream node =
     (if epsilon node = 0
      then and_then (read_n_bits stream 1) (\<lambda>(s, d). Inr (s, node\<lparr>u := d\<rparr>))
      else Inr (stream, node\<lparr>u := 0\<rparr>))"

definition read_node :: "BitStream \<Rightarrow> Node \<Rightarrow> error + (BitStream \<times> Node)" where
  "read_node stream node =
     and_then (read_n_bits stream 8) (\<lambda>(s1, d1).
     and_then (read_n_bits s1 2) (\<lambda>(s2, d2).
     read_u s2 (node\<lparr>moyenne := d1, epsilon := d2\<rparr>)))"

definition read_leaf :: "BitStream \<Rightarrow> Node \<Rightarrow> error + (BitStream \<times> Node)" where
  "read_leaf stream node =
     and_then (read_n_bits stream 8) (\<lambda>(s1, d1).
     Inr (s1, node\<lparr>moyenne := d1, epsilon := 0, u := 1\<rparr>))"

text \<open>
  The interpolated mean is computed in \<^verbatim>\<open>int\<close> and stored in an \<^verbatim>\<open>unsigned char\<close>, which
  keeps its low 8 bits.
\<close>

definition interpolation_4th_child ::
    "BitStream \<Rightarrow> Quadtree \<Rightarrow> Node \<Rightarrow> Node \<Rightarrow> nat \<Rightarrow> error + (BitStream \<times> Node)" where
  "interpolation_4th_child stream quadtree node parent_node index =
     (let node1 = node\<lparr>moyenne := word_of_int
            (4 * uint (moyenne parent_node) + uint (epsilon parent_node)
               - uint (moyenne (nodes quadtree (index - 1)))
               - uint (moyenne (nodes quadtree (index - 2)))
               - uint (moyenne (nodes quadtree (index - 3))))\<rparr>
      in if is_leaf quadtree index then Inr (stream, node1\<lparr>epsilon := 0, u := 1\<rparr>)
         else and_then (read_n_bits stream 2) (\<lambda>(s1, d1). read_u s1 (node1\<lparr>epsilon := d1\<rparr>)))"

text \<open>The body of the loop of \<^verbatim>\<open>decode\<close>, for node \<open>i\<close>, on the tree and the stream.\<close>

definition decode_node ::
    "nat \<Rightarrow> Quadtree \<times> BitStream \<Rightarrow> error + (Quadtree \<times> BitStream)" where
  "decode_node i = (\<lambda>(quadtree, stream).
     let current_node = nodes quadtree i;
         store = (\<lambda>(s, node). Inr (quadtree\<lparr>nodes := (nodes quadtree)(i := node)\<rparr>, s))
     in if i = 0 then and_then (read_node stream current_node) store
        else
          let current_node_parent = nodes quadtree ((i - 1) div 4) in
          if u current_node_parent \<noteq> 0
          then Inr (quadtree\<lparr>nodes := (nodes quadtree)
                 (i := current_node\<lparr>moyenne := moyenne current_node_parent,
                                     epsilon := 0, u := 1\<rparr>)\<rparr>, stream)
          else if i mod 4 = 0
          then and_then (interpolation_4th_child stream quadtree current_node
                           current_node_parent i) store
          else if is_leaf quadtree i then and_then (read_leaf stream current_node) store
          else and_then (read_node stream current_node) store)"

definition decode :: "BitStream \<Rightarrow> (nat \<Rightarrow> Node) \<Rightarrow> error + Quadtree" where
  \<comment> \<open>\<open>nodes0\<close> is what the freshly allocated node array contains\<close>
  "decode stream nodes0 =
     and_then (read_n_bits stream 8) (\<lambda>(s1, lv).
     let quadtree = create_empty_quadtree (unat lv) nodes0 in
     and_then (fold (\<lambda>i r. and_then r (decode_node i)) [0..<total_nodes quadtree]
                 (Inr (quadtree, s1)))
       (\<lambda>(q, s). Inr q))"

function build_image_from_quadtree_rec ::
    "Quadtree \<Rightarrow> Image \<Rightarrow> nat \<Rightarrow> nat \<Rightarrow> nat \<Rightarrow> nat \<Rightarrow> Image" where
  "build_image_from_quadtree_rec quadtree img index x y sz =
     (if is_leaf quadtree index
      then img\<lparr>image := (image img)(y * width img + x := moyenne (nodes quadtree index))\<rparr>
      else
        let child_size = sz div 2;
            img1 = build_image_from_quadtree_rec quadtree img (4 * index + 1) x y child_size;
            img2 = build_image_from_quadtree_rec quadtree img1 (4 * index + 2)
                     (x + child_size) y child_size;
            img3 = build_image_from_quadtree_rec quadtree img2 (4 * index + 3)
                     (x + child_size) (y + child_size) child_size
        in build_image_from_quadtree_rec quadtree img3 (4 * index + 4)
             x (y + child_size) child_size)"
  by pat_completeness auto
termination
  by (relation "measure (\<lambda>(quadtree, img, index, x, y, sz).
        nat (int (total_nodes quadtree) - 2 ^ (2 * levels quadtree) - int index))")
     (auto simp add: is_leaf_def)

definition build_image_from_quadtree :: "Quadtree \<Rightarrow> (nat \<Rightarrow> u8) \<Rightarrow> Image" where
  \<comment> \<open>\<open>pixels0\<close> is what the freshly allocated pixel array contains\<close>
  "build_image_from_quadtree quadtree pixels0 =
     (let w = 2 ^ levels quadtree;
          isz = w * w;
          img = allocate_image w isz 255 pixels0
      in build_image_from_quadtree_rec quadtree img 0 0 0 w)"

section \<open>Reading and writing the file (utils.c)\<close>

text \<open>
  \<^verbatim>\<open>read_bitstream_from_file_Q1\<close> (utils.c), after the header lines of the file: \<open>buffer\<close>
  is the data of the file, pushed byte by byte into a fresh stream.
\<close>

definition read_bitstream_from_file_Q1 :: "u8 list \<Rightarrow> (nat \<Rightarrow> u8) \<Rightarrow> error + BitStream" where
  "read_bitstream_from_file_Q1 buffer m =
     and_then (fold (\<lambda>b r. and_then r (\<lambda>stream. push_n_bits stream b 8)) buffer
                 (Inr (initBitStream (length buffer) m)))
       finishBitStream"

text \<open>
  The data \<^verbatim>\<open>write_bitstream_to_file_Q1\<close> (utils.c) writes to the file:
  \<^verbatim>\<open>fwrite(stream->start, 1, stream->ptr - stream->start, file)\<close>.
\<close>

definition written_bytes :: "BitStream \<Rightarrow> u8 list" where
  "written_bytes stream = map (mem stream) [start stream..<ptr stream]"

section \<open>Notions used to state the properties\<close>

subsection \<open>The store read as a sequence of bits\<close>

text \<open>
  Bits are numbered from the base of the allocation, most significant bit of each byte
  first: bit \<open>p\<close> is bit \<open>7 - p mod 8\<close> of byte \<open>p div 8\<close>. \<open>wpos\<close> is the number of
  the next bit the writer sets, \<open>rpos\<close> of the next bit the reader returns; both use the
  one \<open>capa\<close>. \<open>to_bits n x\<close> lists the low \<open>n\<close> bits of \<open>x\<close>, most significant first,
  and \<open>stored m p bs\<close> says that the store holds the bits \<open>bs\<close> from bit \<open>p\<close> on.
\<close>

definition bit_at :: "(nat \<Rightarrow> u8) \<Rightarrow> nat \<Rightarrow> bool" where
  "bit_at m p = bit (m (p div 8)) (7 - p mod 8)"

definition wpos :: "BitStream \<Rightarrow> nat" where
  "wpos s = 8 * ptr s + (8 - capa s)"

definition rpos :: "BitStream \<Rightarrow> nat" where
  "rpos s = 8 * start s + (8 - capa s)"

definition to_bits :: "nat \<Rightarrow> u8 \<Rightarrow> bool list" where
  "to_bits n x = map (\<lambda>j. bit x (n - 1 - j)) [0..<n]"

definition stored :: "(nat \<Rightarrow> u8) \<Rightarrow> nat \<Rightarrow> bool list \<Rightarrow> bool" where
  "stored m p bs \<longleftrightarrow> (\<forall>k<length bs. bit_at m (p + k) = bs ! k)"

text \<open>
  \<open>inside s\<close>: the writer and the reader have not gone beyond the block of the stream.
  The positions only grow, so a stream that is inside its block has made no access
  outside it.
\<close>

definition inside :: "BitStream \<Rightarrow> bool" where
  "inside s \<longleftrightarrow> wpos s \<le> 8 * allocated s \<and> rpos s \<le> 8 * allocated s"




definition zero_mem :: "nat \<Rightarrow> u8" where
  "zero_mem = (\<lambda>_. 0)"


subsection \<open>The heap layout of the tree\<close>

text \<open>
  The children of node \<open>i\<close> are the nodes \<open>4 i + 1, \<dots>, 4 i + 4\<close>. \<open>first_at k\<close> is the
  index of the first node of level \<open>k\<close> (the root is level 0), \<open>lvl j\<close> the level of node
  \<open>j\<close>, \<open>up e j\<close> the ancestor of \<open>j\<close> that is \<open>e\<close> levels up, and \<open>below i d j\<close> says that
  \<open>j\<close> lies in the subtree of \<open>i\<close>, at most \<open>d\<close> levels down.
\<close>

primrec first_at :: "nat \<Rightarrow> nat" where
  "first_at 0 = 0"
| "first_at (Suc k) = 4 * first_at k + 1"

fun lvl :: "nat \<Rightarrow> nat" where
  "lvl j = (if j = 0 then 0 else Suc (lvl ((j - 1) div 4)))"

declare lvl.simps [simp del]

definition up :: "nat \<Rightarrow> nat \<Rightarrow> nat" where
  "up e j = ((\<lambda>j. (j - 1) div 4) ^^ e) j"

definition below :: "nat \<Rightarrow> nat \<Rightarrow> nat \<Rightarrow> bool" where
  "below i d j \<longleftrightarrow> (\<exists>e\<le>d. up e j = i)"

subsection \<open>What the builder establishes\<close>

text \<open>
  \<open>children_sum ns i\<close> is the sum of the means of the four children of \<open>i\<close>. \<open>node_ok\<close> is
  the relation between an internal node and its children, \<open>built ns i d\<close> says that it
  holds throughout the subtree of depth \<open>d\<close> at \<open>i\<close> and that the nodes \<open>d\<close> levels down
  are leaves as the builder writes them.
\<close>

definition children_sum :: "(nat \<Rightarrow> Node) \<Rightarrow> nat \<Rightarrow> nat" where
  "children_sum ns i = unat (moyenne (ns (4 * i + 1))) + unat (moyenne (ns (4 * i + 2))) +
     unat (moyenne (ns (4 * i + 3))) + unat (moyenne (ns (4 * i + 4)))"

definition node_ok :: "(nat \<Rightarrow> Node) \<Rightarrow> nat \<Rightarrow> bool" where
  "node_ok ns i \<longleftrightarrow>
     moyenne (ns i) = of_nat (children_sum ns i div 4) \<and>
     epsilon (ns i) = of_nat (children_sum ns i mod 4) \<and>
     u (ns i) = (if (\<forall>k\<in>{1, 2, 3, 4}. u (ns (4 * i + k)) = 1 \<and>
                       moyenne (ns (4 * i + k)) = moyenne (ns (4 * i + 1))) then 1 else 0)"

fun built :: "(nat \<Rightarrow> Node) \<Rightarrow> nat \<Rightarrow> nat \<Rightarrow> bool" where
  "built ns i 0 \<longleftrightarrow> epsilon (ns i) = 0 \<and> u (ns i) = 1 \<and> v (ns i) = Fin 0"
| "built ns i (Suc d) \<longleftrightarrow> node_ok ns i \<and> built ns (4 * i + 1) d \<and> built ns (4 * i + 2) d \<and>
     built ns (4 * i + 3) d \<and> built ns (4 * i + 4) d"

text \<open>
  \<open>leaf_of d i dx dy\<close> is the leaf that covers the pixel at offset \<open>(dx, dy)\<close> inside the
  square of side \<open>2 ^ d\<close> of node \<open>i\<close>: children 1 to 4 are the top left, top right, bottom
  right and bottom left quadrants. \<open>pix_ok\<close> says that the leaves of the subtree hold the
  pixels of the square of the image with top left corner \<open>(x, y)\<close>.
\<close>

fun leaf_of :: "nat \<Rightarrow> nat \<Rightarrow> nat \<Rightarrow> nat \<Rightarrow> nat" where
  "leaf_of 0 i dx dy = i"
| "leaf_of (Suc d) i dx dy =
     (if dx < 2 ^ d
      then (if dy < 2 ^ d then leaf_of d (4 * i + 1) dx dy
            else leaf_of d (4 * i + 4) dx (dy - 2 ^ d))
      else (if dy < 2 ^ d then leaf_of d (4 * i + 2) (dx - 2 ^ d) dy
            else leaf_of d (4 * i + 3) (dx - 2 ^ d) (dy - 2 ^ d)))"

definition pix_ok :: "(nat \<Rightarrow> Node) \<Rightarrow> Image \<Rightarrow> nat \<Rightarrow> nat \<Rightarrow> nat \<Rightarrow> nat \<Rightarrow> bool" where
  "pix_ok ns img i d x y \<longleftrightarrow>
     (\<forall>dx<2 ^ d. \<forall>dy<2 ^ d.
        moyenne (ns (leaf_of d i dx dy)) = image img ((y + dy) * width img + (x + dx)))"

text \<open>The square of the difference of two means, as a \<^verbatim>\<open>double\<close>.\<close>

definition m_diff2 :: "u8 \<Rightarrow> u8 \<Rightarrow> double" where
  "m_diff2 a b = (let m_diff = Fin (real_of_int (uint a - uint b)) in fmul m_diff m_diff)"

subsection \<open>Concrete inputs\<close>

text \<open>
  A raster given by its width and the list of its pixels, row by row, and a node array
  filled with an arbitrary value, as a fresh allocation may be.
\<close>

definition pixels_of :: "u8 list \<Rightarrow> nat \<Rightarrow> u8" where
  "pixels_of xs k = (if k < length xs then xs ! k else 0)"

definition raster :: "nat \<Rightarrow> u8 list \<Rightarrow> Image" where
  "raster w xs = \<lparr>width = w, image_size = w * w, max_val = 255, image = pixels_of xs\<rparr>"

definition junk_nodes :: "nat \<Rightarrow> Node" where
  "junk_nodes = (\<lambda>_. \<lparr>moyenne = 170, epsilon = 85, u = 7, v = NaN\<rparr>)"

text \<open>
  \<open>tree_ok q\<close>: the tree has the number of nodes of its depth, every internal node
  satisfies \<open>node_ok\<close> and every leaf is as the builder writes it.
\<close>

definition tree_ok :: "Quadtree \<Rightarrow> bool" where
  "tree_ok q \<longleftrightarrow> total_nodes q = first_at (Suc (levels q)) \<and>
     (\<forall>j<first_at (levels q). node_ok (nodes q) j) \<and>
     (\<forall>j. first_at (levels q) \<le> j \<and> j < first_at (Suc (levels q)) \<longrightarrow> built (nodes q) j 0)"

subsection \<open>The encoded stream\<close>

text \<open>
  \<open>node_bits q i\<close> are the bits the encoder emits for node \<open>i\<close>, as the loop of
  \<^verbatim>\<open>encode\<close> chooses them, and \<open>body_bits q\<close> those of all the nodes in index order.
\<close>

definition tail_bits :: "Node \<Rightarrow> bool list" where
  "tail_bits n = to_bits 2 (epsilon n) @ (if epsilon n = 0 then to_bits 1 (u n) else [])"

definition node_bits :: "Quadtree \<Rightarrow> nat \<Rightarrow> bool list" where
  "node_bits q i =
     (let n = nodes q i in
      if i = 0 then to_bits 8 (moyenne n) @ tail_bits n
      else if u (nodes q ((i - 1) div 4)) \<noteq> 0 then []
      else if is_leaf q i then (if i mod 4 \<noteq> 0 then to_bits 8 (moyenne n) else [])
      else (if i mod 4 \<noteq> 0 then to_bits 8 (moyenne n) else []) @ tail_bits n)"

definition body_bits :: "Quadtree \<Rightarrow> bool list" where
  "body_bits q = concat (map (node_bits q) [0..<total_nodes q])"

text \<open>
  The state of a stream that has been written from bit \<open>p\<close> on: it holds the bits
  \<open>bs\<close> there and the writer stands right after them.
\<close>

definition wrote :: "BitStream \<Rightarrow> nat \<Rightarrow> bool list \<Rightarrow> bool" where
  "wrote s p bs \<longleftrightarrow> capa s \<le> 8 \<and> stored (mem s) p bs \<and> wpos s = p + length bs"

text \<open>
  Two nodes agree on the fields that are serialized. \<open>reads s bs\<close>: the bits the reader
  of \<open>s\<close> meets next are \<open>bs\<close>. \<open>enc_ok\<close>: epsilon fits in 2 bits, the flag in 1 bit, and
  a node with a non-zero epsilon is not uniform.
\<close>

definition same_fields :: "Node \<Rightarrow> Node \<Rightarrow> bool" where
  "same_fields a b \<longleftrightarrow> moyenne a = moyenne b \<and> epsilon a = epsilon b \<and> u a = u b"

definition reads :: "BitStream \<Rightarrow> bool list \<Rightarrow> bool" where
  "reads s bs \<longleftrightarrow> capa s \<le> 8 \<and> stored (mem s) (rpos s) bs"

definition enc_ok :: "Node \<Rightarrow> bool" where
  "enc_ok n \<longleftrightarrow> take_bit 2 (epsilon n) = epsilon n \<and> take_bit 1 (u n) = u n \<and>
     (epsilon n \<noteq> 0 \<longrightarrow> u n = 0)"

text \<open>
  What the painter leaves in the pixel array, given what was there before: inside the
  square of side \<open>2 ^ d\<close> with top left corner \<open>(x, y)\<close> of a raster of width \<open>w\<close>, the mean
  of the leaf that covers the pixel; elsewhere, the old content.
\<close>

definition painted ::
    "Quadtree \<Rightarrow> nat \<Rightarrow> nat \<Rightarrow> nat \<Rightarrow> nat \<Rightarrow> nat \<Rightarrow> (nat \<Rightarrow> u8) \<Rightarrow> nat \<Rightarrow> u8" where
  "painted q w i d x y old p =
     (if x \<le> p mod w \<and> p mod w < x + 2 ^ d \<and> y \<le> p div w \<and> p div w < y + 2 ^ d
      then moyenne (nodes q (leaf_of d i (p mod w - x) (p div w - y)))
      else old p)"

text \<open>A tree of depth 1 whose node \<open>j\<close> has the mean \<open>10 * j\<close>; no node is uniform.\<close>

definition sample_tree :: Quadtree where
  "sample_tree = \<lparr>nodes = (\<lambda>j. \<lparr>moyenne = of_nat (10 * j), epsilon = 0, u = 0, v = NaN\<rparr>),
     total_nodes = 5, levels = 1, medvar = Fin 0, maxvar = Fin 0\<rparr>"

text \<open>\<open>pack bs\<close> groups the bits \<open>bs\<close> by eight into bytes, most significant bit first.\<close>

definition pack :: "bool list \<Rightarrow> u8 list" where
  "pack bs = map (\<lambda>k. horner_sum of_bool 2 (rev (take 8 (drop (8 * k) bs)))) [0..<length bs div 8]"

text \<open>The tree the builder returns for the 1\<times>1 raster \<open>[128]\<close>.\<close>

definition tree_128 :: Quadtree where
  "tree_128 = \<lparr>nodes = junk_nodes(0 := \<lparr>moyenne = 128, epsilon = 0, u = 1, v = Fin 0\<rparr>),
     total_nodes = 1, levels = 0, medvar = NaN, maxvar = Fin 0\<rparr>"

subsection \<open>What the filter does to a tree\<close>

text \<open>
  \<open>filtered_node old new\<close>: the filter has left the node alone, or the node was not
  uniform and is now uniform with epsilon 0, its mean and variance untouched.
  \<open>filtered q q'\<close>: the tree \<open>q'\<close> has the dimensions and the variance totals of \<open>q\<close> and
  each of its nodes is related to the node of \<open>q\<close> at the same index in this way.
\<close>

definition filtered_node :: "Node \<Rightarrow> Node \<Rightarrow> bool" where
  "filtered_node old new \<longleftrightarrow> new = old \<or> (u old = 0 \<and> new = old\<lparr>epsilon := 0, u := 1\<rparr>)"

definition filtered :: "Quadtree \<Rightarrow> Quadtree \<Rightarrow> bool" where
  "filtered q q' \<longleftrightarrow> total_nodes q' = total_nodes q \<and> levels q' = levels q \<and>
     medvar q' = medvar q \<and> maxvar q' = maxvar q \<and>
     (\<forall>j. filtered_node (nodes q j) (nodes q' j))"

text \<open>
  \<open>settled ns sigma alpha i d\<close>: in the subtree of \<open>i\<close>, \<open>d\<close> levels deep, the filter with
  threshold \<open>sigma\<close> has nothing left to do. It stops at a uniform node; at a node that
  is not uniform its four children are settled for \<open>sigma * alpha\<close> and the node cannot
  be collapsed: a child is not uniform or the variance of the node exceeds \<open>sigma\<close>.
\<close>

fun settled :: "(nat \<Rightarrow> Node) \<Rightarrow> double \<Rightarrow> double \<Rightarrow> nat \<Rightarrow> nat \<Rightarrow> bool" where
  "settled ns sigma alpha i 0 \<longleftrightarrow> u (ns i) \<noteq> 0"
| "settled ns sigma alpha i (Suc d) \<longleftrightarrow> u (ns i) \<noteq> 0 \<or>
     (settled ns (fmul sigma alpha) alpha (4 * i + 1) d \<and>
      settled ns (fmul sigma alpha) alpha (4 * i + 2) d \<and>
      settled ns (fmul sigma alpha) alpha (4 * i + 3) d \<and>
      settled ns (fmul sigma alpha) alpha (4 * i + 4) d \<and>
      (u (ns (4 * i + 1)) = 0 \<or> u (ns (4 * i + 2)) = 0 \<or> u (ns (4 * i + 3)) = 0 \<or>
       u (ns (4 * i + 4)) = 0 \<or> fgt (v (ns i)) sigma))"

text \<open>The number \<^verbatim>\<open>filtrage\<close> returns at a node: 1 if the node is uniform, 0 if not.\<close>

definition flag :: "Node \<Rightarrow> nat" where
  "flag n = (if u n \<noteq> 0 then 1 else 0)"

text \<open>The tree the builder returns for the uniform 2\<times>2 raster of value 7.\<close>

definition flat_tree :: Quadtree where
  "flat_tree = \<lparr>nodes = junk_nodes
       (1 := \<lparr>moyenne = 7, epsilon = 0, u = 1, v = Fin 0\<rparr>,
        2 := \<lparr>moyenne = 7, epsilon = 0, u = 1, v = Fin 0\<rparr>,
        3 := \<lparr>moyenne = 7, epsilon = 0, u = 1, v = Fin 0\<rparr>,
        4 := \<lparr>moyenne = 7, epsilon = 0, u = 1, v = Fin 0\<rparr>,
        0 := \<lparr>moyenne = 7, epsilon = 0, u = 1, v = Fin 0\<rparr>),
     total_nodes = 5, levels = 1, medvar = Fin 0, maxvar = Fin 0\<rparr>"

section \<open>Properties of the bit stream\<close>

lemma getbit_nonzero: "getbit w b \<noteq> 0 \<longleftrightarrow> bit w b"
  unfolding getbit_def
  by (simp add: and_one_eq bit_iff_odd_drop_bit mod_2_eq_odd)

lemma bit_setbit: "b < 8 \<Longrightarrow> bit (setbit w b x) k \<longleftrightarrow> (if k = b then x \<noteq> 0 else bit w k)"
  unfolding setbit_def
  by (auto simp add: bit_simps dest: bit_imp_le_length)

lemma bit_at_upd:
  "c < 8 \<Longrightarrow> bit_at (m(a := setbit (m a) c x)) p \<longleftrightarrow> (if p = 8 * a + (7 - c) then x \<noteq> 0 else bit_at m p)"
proof -
  assume c: "c < 8"
  have "p = 8 * a + (7 - c) \<longleftrightarrow> p div 8 = a \<and> 7 - p mod 8 = c"
  proof
    assume p: "p = 8 * a + (7 - c)"
    define d where "d = 7 - c"
    have d: "d < 8" "7 - d = c" using c by (simp_all add: d_def)
    have "p = d + a * 8" using p by (simp add: d_def)
    then have "p div 8 = a" "p mod 8 = d" using d(1) by simp_all
    with d(2) show "p div 8 = a \<and> 7 - p mod 8 = c" by simp
  next
    assume h: "p div 8 = a \<and> 7 - p mod 8 = c"
    have "p = 8 * (p div 8) + p mod 8" "p mod 8 < 8" by simp_all
    with h show "p = 8 * a + (7 - c)" by linarith
  qed
  then show ?thesis
    using c by (auto simp add: bit_at_def bit_setbit)
qed

lemma pushbits_step_effect:
  assumes "capa cur \<le> 8" and "pushbits_step src nbit i (cur, k) = (cur', k')"
  shows "capa cur' < 8" "start cur' = start cur" "wpos cur' = wpos cur + 1" "k' = k + 1"
    "bit_at (mem cur') p \<longleftrightarrow> (if p = wpos cur then bit src (nbit - 1 - i) else bit_at (mem cur) p)"
  using assms
  by (auto simp add: pushbits_step_def Let_def wpos_def bit_at_upd getbit_nonzero split: if_splits)

lemma pushbits_fold:
  "capa cur \<le> 8 \<Longrightarrow> k \<le> nbit \<Longrightarrow> fold (pushbits_step src nbit) [0..<k] (cur, 0) = (cur', c) \<Longrightarrow>
     c = k \<and> capa cur' \<le> 8 \<and> (0 < k \<longrightarrow> capa cur' < 8) \<and>
     start cur' = start cur \<and> wpos cur' = wpos cur + k \<and>
     (\<forall>p. bit_at (mem cur') p \<longleftrightarrow>
        (if wpos cur \<le> p \<and> p < wpos cur + k then bit src (nbit - 1 - (p - wpos cur))
         else bit_at (mem cur) p))"
proof (induction k arbitrary: cur' c)
  case 0
  then show ?case by auto
next
  case (Suc k)
  obtain cur1 c1 where f: "fold (pushbits_step src nbit) [0..<k] (cur, 0) = (cur1, c1)"
    by (cases "fold (pushbits_step src nbit) [0..<k] (cur, 0)")
  from Suc.IH [OF Suc.prems(1) _ f] Suc.prems(2)
  have ih: "c1 = k" "capa cur1 \<le> 8" "start cur1 = start cur" "wpos cur1 = wpos cur + k"
    "\<And>p. bit_at (mem cur1) p \<longleftrightarrow>
        (if wpos cur \<le> p \<and> p < wpos cur + k then bit src (nbit - 1 - (p - wpos cur))
         else bit_at (mem cur) p)"
    by simp_all
  from Suc.prems(3) f have st: "pushbits_step src nbit k (cur1, c1) = (cur', c)"
    by simp
  note e = pushbits_step_effect [OF ih(2) st]
  show ?case
    using e(1-4) ih(1,3,4) by (auto simp add: e(5) ih(5))
qed

lemma pullbits_step_effect:
  assumes "capa cur \<le> 8" and "i < nbit" and "nbit \<le> 8"
    and "pullbits_step nbit i (cur, dest, k) = (cur', dest', k')"
  shows "capa cur' \<le> 8" "ptr cur' = ptr cur" "mem cur' = mem cur" "rpos cur' = rpos cur + 1" "k' = k + 1"
    "bit dest' j \<longleftrightarrow> (if j = nbit - 1 - i then bit_at (mem cur) (rpos cur) else bit dest j)"
proof -
  have pos: "bit_at (mem cur) (rpos cur) \<longleftrightarrow>
      bit (mem cur (if capa cur = 0 then start cur + 1 else start cur))
          ((if capa cur = 0 then 8 else capa cur) - 1)"
  proof -
    have "rpos cur div 8 = (if capa cur = 0 then start cur + 1 else start cur)"
      unfolding rpos_def by (cases "capa cur = 0") simp_all
    moreover have "7 - rpos cur mod 8 = (if capa cur = 0 then 8 else capa cur) - 1"
    proof (cases "capa cur = 0")
      case True
      then show ?thesis by (simp add: rpos_def)
    next
      case False
      with assms(1) have "8 - capa cur < 8" by simp
      then have "(8 * start cur + (8 - capa cur)) mod 8 = 8 - capa cur" by simp
      with False assms(1) show ?thesis by (simp add: rpos_def)
    qed
    ultimately show ?thesis by (simp add: bit_at_def)
  qed
  have lt: "nbit - 1 - i < 8" using assms(2,3) by simp
  show "capa cur' \<le> 8" "ptr cur' = ptr cur" "mem cur' = mem cur" "rpos cur' = rpos cur + 1" "k' = k + 1"
    using assms by (auto simp add: pullbits_step_def Let_def rpos_def split: if_splits)
  show "bit dest' j \<longleftrightarrow> (if j = nbit - 1 - i then bit_at (mem cur) (rpos cur) else bit dest j)"
    using assms(4) lt unfolding pos
    by (auto simp add: pullbits_step_def Let_def bit_setbit getbit_nonzero split: if_splits)
qed

lemma pullbits_fold:
  "capa cur \<le> 8 \<Longrightarrow> k \<le> nbit \<Longrightarrow> nbit \<le> 8 \<Longrightarrow>
   fold (pullbits_step nbit) [0..<k] (cur, d0, 0) = (cur', dest, c) \<Longrightarrow>
     c = k \<and> capa cur' \<le> 8 \<and> ptr cur' = ptr cur \<and> mem cur' = mem cur \<and> rpos cur' = rpos cur + k \<and>
     (\<forall>j. bit dest j \<longleftrightarrow>
        (if nbit - k \<le> j \<and> j < nbit then bit_at (mem cur) (rpos cur + (nbit - 1 - j))
         else bit d0 j))"
proof (induction k arbitrary: cur' dest c)
  case 0
  then show ?case by auto
next
  case (Suc k)
  obtain cur1 d1 c1 where f: "fold (pullbits_step nbit) [0..<k] (cur, d0, 0) = (cur1, d1, c1)"
    by (cases "fold (pullbits_step nbit) [0..<k] (cur, d0, 0)")
  from Suc.IH [OF Suc.prems(1) _ Suc.prems(3) f] Suc.prems(2)
  have ih: "c1 = k" "capa cur1 \<le> 8" "ptr cur1 = ptr cur" "mem cur1 = mem cur" "rpos cur1 = rpos cur + k"
    "\<And>j. bit d1 j \<longleftrightarrow>
        (if nbit - k \<le> j \<and> j < nbit then bit_at (mem cur) (rpos cur + (nbit - 1 - j))
         else bit d0 j)"
    by simp_all
  from Suc.prems(4) f have st: "pullbits_step nbit k (cur1, d1, c1) = (cur', dest, c)"
    by simp
  have kn: "k < nbit" using Suc.prems(2) by simp
  note e = pullbits_step_effect [OF ih(2) kn Suc.prems(3) st]
  have "bit dest j \<longleftrightarrow>
        (if nbit - Suc k \<le> j \<and> j < nbit then bit_at (mem cur) (rpos cur + (nbit - 1 - j))
         else bit d0 j)" for j
  proof (cases "j = nbit - 1 - k")
    case True
    then have "nbit - 1 - j = k" using kn by simp
    with True kn show ?thesis by (simp add: e(6) ih(4,5))
  next
    case False
    with kn have "(nbit - Suc k \<le> j \<and> j < nbit) = (nbit - k \<le> j \<and> j < nbit)" by auto
    with False show ?thesis by (simp add: e(6) ih(6))
  qed
  then show ?case
    using e(1-5) ih(1,3,4,5) by simp
qed

lemma length_to_bits [simp]: "length (to_bits n x) = n"
  by (simp add: to_bits_def)

lemma stored_Nil [simp]: "stored m p []"
  by (simp add: stored_def)

lemma stored_append:
  "stored m p (as @ bs) \<longleftrightarrow> stored m p as \<and> stored m (p + length as) bs"
proof
  assume h: "stored m p (as @ bs)"
  have "stored m p as"
    unfolding stored_def
  proof (intro allI impI)
    fix k assume "k < length as"
    with h [unfolded stored_def, rule_format, of k] show "bit_at m (p + k) = as ! k"
      by (simp add: nth_append)
  qed
  moreover have "stored m (p + length as) bs"
    unfolding stored_def
  proof (intro allI impI)
    fix k assume "k < length bs"
    with h [unfolded stored_def, rule_format, of "length as + k"]
    show "bit_at m (p + length as + k) = bs ! k"
      by (simp add: nth_append add.assoc)
  qed
  ultimately show "stored m p as \<and> stored m (p + length as) bs" ..
next
  assume h: "stored m p as \<and> stored m (p + length as) bs"
  show "stored m p (as @ bs)"
    unfolding stored_def
  proof (intro allI impI)
    fix k assume k: "k < length (as @ bs)"
    show "bit_at m (p + k) = (as @ bs) ! k"
    proof (cases "k < length as")
      case True
      with h show ?thesis by (simp add: stored_def nth_append)
    next
      case False
      then have "k - length as < length bs" "p + k = p + length as + (k - length as)"
        using k by simp_all
      with h False show ?thesis
        unfolding stored_def nth_append by metis
    qed
  qed
qed

lemma pushbits_total: "snd (pushbits s x n) = n"
proof -
  have "snd (fold (pushbits_step x n) xs (s0, c)) = c + length xs" for xs s0 c
    by (induction xs arbitrary: s0 c) (simp_all add: pushbits_step_def Let_def)
  then show ?thesis by (simp add: pushbits_def)
qed

lemma pullbits_total: "snd (snd (pullbits s n)) = n"
proof -
  have "snd (snd (fold (pullbits_step n) xs (s0, d, c))) = c + length xs" for xs s0 d c
    by (induction xs arbitrary: s0 d c) (simp_all add: pullbits_step_def Let_def)
  then show ?thesis by (simp add: pullbits_def)
qed

lemma push_n_bits_Inr: "push_n_bits s x n = Inr (fst (pushbits s x n))"
  using pushbits_total [of s x n]
  by (cases "pushbits s x n") (simp add: push_n_bits_def)

lemma read_n_bits_Inr: "read_n_bits s n = Inr (fst (pullbits s n), fst (snd (pullbits s n)))"
  using pullbits_total [of s n]
  by (cases "pullbits s n") (auto simp add: read_n_bits_def)

lemma allocated_push_n_bits: "push_n_bits s x n = Inr s' \<Longrightarrow> allocated s' = allocated s"
proof -
  have "allocated (fst (fold (pushbits_step x n) xs (s0, c))) = allocated s0" for xs s0 c
    by (induction xs arbitrary: s0 c) (simp_all add: pushbits_step_def Let_def)
  then show "push_n_bits s x n = Inr s' \<Longrightarrow> allocated s' = allocated s"
    by (simp add: push_n_bits_Inr pushbits_def) (metis fst_conv)
qed

lemma allocated_read_n_bits: "read_n_bits s n = Inr (s', d) \<Longrightarrow> allocated s' = allocated s"
proof -
  have "allocated (fst (fold (pullbits_step n) xs (s0, d0, c))) = allocated s0" for xs s0 d0 c
    by (induction xs arbitrary: s0 d0 c) (simp_all add: pullbits_step_def Let_def)
  then show "read_n_bits s n = Inr (s', d) \<Longrightarrow> allocated s' = allocated s"
    by (simp add: read_n_bits_Inr pullbits_def) (metis fst_conv)
qed

lemma allocated_finishBitStream: "finishBitStream s = Inr s' \<Longrightarrow> allocated s' = allocated s"
  using allocated_push_n_bits [of s 0 "capa s"]
  by (auto simp add: finishBitStream_def split: if_splits sum.splits)

lemma pushed:
  assumes "capa s \<le> 8" and "stored (mem s) p bs" and "wpos s = p + length bs"
  shows "\<exists>s'. push_n_bits s x n = Inr s' \<and> capa s' \<le> 8 \<and> (0 < n \<longrightarrow> capa s' < 8) \<and>
           start s' = start s \<and>
           wpos s' = p + length (bs @ to_bits n x) \<and> stored (mem s') p (bs @ to_bits n x)"
proof -
  obtain s' c where f: "fold (pushbits_step x n) [0..<n] (s, 0) = (s', c)"
    by (cases "fold (pushbits_step x n) [0..<n] (s, 0)")
  from pushbits_fold [OF assms(1) le_refl f]
  have e: "c = n" "capa s' \<le> 8" "start s' = start s" "wpos s' = wpos s + n"
    "0 < n \<longrightarrow> capa s' < 8"
    "\<And>q. bit_at (mem s') q \<longleftrightarrow>
        (if wpos s \<le> q \<and> q < wpos s + n then bit x (n - 1 - (q - wpos s)) else bit_at (mem s) q)"
    by simp_all
  have "stored (mem s') p bs"
    using assms(2,3) by (simp add: stored_def e(6))
  moreover have "stored (mem s') (p + length bs) (to_bits n x)"
    using assms(3) by (simp add: stored_def e(6) to_bits_def)
  ultimately have "stored (mem s') p (bs @ to_bits n x)"
    by (simp add: stored_append)
  moreover have "push_n_bits s x n = Inr s'"
    using f e(1) by (simp add: push_n_bits_def pushbits_def)
  ultimately show ?thesis
    using e(2,3,4,5) assms(3) by simp
qed

lemma pulled:
  assumes "capa s \<le> 8" and "n \<le> 8" and "stored (mem s) (rpos s) (to_bits n x @ rest)"
  shows "\<exists>s'. read_n_bits s n = Inr (s', take_bit n x) \<and> capa s' \<le> 8 \<and> mem s' = mem s \<and>
           ptr s' = ptr s \<and> rpos s' = rpos s + n \<and> stored (mem s') (rpos s') rest"
proof -
  obtain s' d c where f: "fold (pullbits_step n) [0..<n] (s, 0, 0) = (s', d, c)"
    by (cases "fold (pullbits_step n) [0..<n] (s, 0, 0)")
  from pullbits_fold [OF assms(1) le_refl assms(2) f]
  have e: "c = n" "capa s' \<le> 8" "ptr s' = ptr s" "mem s' = mem s" "rpos s' = rpos s + n"
    "\<And>j. bit d j \<longleftrightarrow> (if j < n then bit_at (mem s) (rpos s + (n - 1 - j)) else False)"
    by simp_all
  from assms(3) have st: "stored (mem s) (rpos s) (to_bits n x)"
    and rest: "stored (mem s) (rpos s + n) rest"
    by (simp_all add: stored_append)
  have "bit d j \<longleftrightarrow> bit (take_bit n x) j" for j
  proof (cases "j < n")
    case True
    then have "n - 1 - j < n" "n - 1 - (n - 1 - j) = j" by simp_all
    with st [unfolded stored_def, rule_format, of "n - 1 - j"] True
    show ?thesis by (simp add: e(6) to_bits_def bit_take_bit_iff)
  next
    case False
    then show ?thesis by (simp add: e(6) bit_take_bit_iff)
  qed
  then have "d = take_bit n x" by (rule bit_eqI)
  moreover have "read_n_bits s n = Inr (s', d)"
    using f e(1) by (simp add: read_n_bits_def pullbits_def)
  ultimately show ?thesis
    using e(2-5) rest by simp
qed

lemma finished:
  assumes "capa s \<le> 8" and "stored (mem s) p bs" and "wpos s = p + length bs"
  shows "\<exists>s' pad. finishBitStream s = Inr s' \<and> capa s' = 8 \<and> start s' = start s \<and>
           8 * ptr s' = p + length (bs @ replicate pad False) \<and> pad < 8 \<and>
           stored (mem s') p (bs @ replicate pad False)"
proof (cases "capa s = 8")
  case True
  with assms show ?thesis
    by (intro exI [of _ s] exI [of _ 0]) (simp add: finishBitStream_def wpos_def)
next
  case False
  have z: "to_bits n 0 = replicate n False" for n
    by (simp add: to_bits_def list_eq_iff_nth_eq)
  from pushed [OF assms, of 0 "capa s"] obtain s1 where
    s1: "push_n_bits s 0 (capa s) = Inr s1" "capa s1 \<le> 8" "0 < capa s \<longrightarrow> capa s1 < 8"
       "start s1 = start s"
       "wpos s1 = p + length (bs @ replicate (capa s) False)"
       "stored (mem s1) p (bs @ replicate (capa s) False)"
    by (auto simp add: z)
  have s0: "capa s = 0 \<Longrightarrow> s1 = s"
    using s1(1) by (simp add: push_n_bits_def pushbits_def)
  have "wpos s1 = wpos s + capa s" using s1(5) assms(3) by simp
  moreover have "wpos s + capa s = 8 * ptr s + 8" using assms(1) by (simp add: wpos_def)
  ultimately have "8 * ptr s1 + (8 - capa s1) = 8 * ptr s + 8" by (simp add: wpos_def)
  moreover have "capa s1 < 8" using s1(3) s0 False assms(1) by (cases "capa s = 0") auto
  ultimately have "ptr s1 = ptr s \<and> capa s1 = 0" by presburger
  then have "8 * (ptr s1 + 1) = p + length (bs @ replicate (capa s) False)"
    using s1(5) by (simp add: wpos_def)
  moreover have "capa s < 8" using False assms(1) by simp
  ultimately show ?thesis
    using False s1(1,4,6)
    by (intro exI [of _ "s1\<lparr>ptr := ptr s1 + 1, capa := 8\<rparr>"] exI [of _ "capa s"])
       (simp add: finishBitStream_def)
qed






lemma first_at_Suc: "first_at (Suc k) = first_at k + 4 ^ k"
  by (induction k) simp_all

lemma first_at_pow: "3 * first_at k + 1 = 4 ^ k"
  by (induction k) simp_all

lemma total_nodes_create [simp]: "total_nodes (create_empty_quadtree n ns) = first_at (Suc n)"
proof -
  have "fold (\<lambda>i total. total + 2 ^ (2 * i)) [0..<k] 0 = first_at k" for k
    by (induction k) (simp_all add: power_mult flip: first_at_pow)
  from this [of "Suc n"] show ?thesis
    by (simp add: create_empty_quadtree_def Let_def del: first_at.simps upt_Suc)
qed

lemma create_fields [simp]:
  "levels (create_empty_quadtree n ns) = n" "nodes (create_empty_quadtree n ns) = ns"
  "medvar (create_empty_quadtree n ns) = Fin 0" "maxvar (create_empty_quadtree n ns) = Fin 0"
  by (simp_all add: create_empty_quadtree_def Let_def)

lemma is_leaf_iff:
  "total_nodes q = first_at (Suc (levels q)) \<Longrightarrow> is_leaf q i \<longleftrightarrow> first_at (levels q) \<le> i"
  by (auto simp add: is_leaf_def first_at_Suc power_mult simp del: first_at.simps)

lemma lvl_0 [simp]: "lvl 0 = 0"
  by (simp add: lvl.simps)

lemma Suc_div4 [simp]:
  "Suc (4 * i) div 4 = i" "Suc (Suc (4 * i)) div 4 = i" "Suc (Suc (Suc (4 * i))) div 4 = i"
  by linarith+

lemma lvl_parent: "0 < j \<Longrightarrow> lvl j = Suc (lvl ((j - 1) div 4))"
  by (subst lvl.simps) simp

lemma lvl_child [simp]: "lvl (4 * i + 1) = Suc (lvl i)" "lvl (4 * i + 2) = Suc (lvl i)"
  "lvl (4 * i + 3) = Suc (lvl i)" "lvl (4 * i + 4) = Suc (lvl i)"
  by (simp_all add: lvl_parent)

lemma lvl_less_iff: "lvl j < k \<longleftrightarrow> j < first_at k"
proof (induction k arbitrary: j)
  case 0
  show ?case by simp
next
  case (Suc k)
  show ?case
  proof (cases "j = 0")
    case True
    then show ?thesis by simp
  next
    case False
    then have "lvl j = Suc (lvl ((j - 1) div 4))" by (simp add: lvl.simps [of j])
    moreover have "(j - 1) div 4 < first_at k \<longleftrightarrow> j < 4 * first_at k + 1"
      using False by (auto simp add: less_mult_imp_div_less div_less_iff_less_mult)
    ultimately show ?thesis using Suc.IH [of "(j - 1) div 4"] by simp
  qed
qed

lemma up_0 [simp]: "up 0 j = j"
  by (simp add: up_def)

lemma up_Suc: "up (Suc e) j = (up e j - 1) div 4"
  by (simp add: up_def)

lemma up_Suc': "up (Suc e) j = up e ((j - 1) div 4)"
  using funpow_swap1 [of "\<lambda>j. (j - 1) div 4" e j] by (simp add: up_def)

lemma up_le: "up e j \<le> j"
proof (induction e)
  case 0
  show ?case by simp
next
  case (Suc e)
  have "(up e j - 1) div 4 \<le> up e j" by (simp add: div_le_dividend le_diff_conv trans_le_add1)
  with Suc show ?case by (simp add: up_Suc)
qed

lemma up_add: "up (a + b) j = up a (up b j)"
  by (simp add: up_def funpow_add)

lemma up_mono: "a \<le> b \<Longrightarrow> up e a \<le> up e b"
proof (induction e arbitrary: a b)
  case 0
  then show ?case by simp
next
  case (Suc e)
  then have "(a - 1) div 4 \<le> (b - 1) div 4" by (simp add: div_le_mono)
  from Suc.IH [OF this] show ?case by (simp add: up_Suc')
qed

lemma below_self [simp]: "below i d i"
  by (auto simp add: below_def intro: exI [of _ 0])

lemma below_child:
  assumes "below c d j" and "c = 4 * i + k" and "1 \<le> k" and "k \<le> 4"
  shows "below i (Suc d) j"
proof -
  from assms(1) obtain e where e: "e \<le> d" "up e j = c" by (auto simp add: below_def)
  have "(c - 1) div 4 = i" using assms(2-4) by simp
  with e have "up (Suc e) j = i" by (simp add: up_Suc)
  with e(1) show ?thesis unfolding below_def by (intro exI [of _ "Suc e"]) simp
qed

lemma below_ge: "below i d j \<Longrightarrow> i \<le> j"
  by (auto simp add: below_def intro: up_le)

text \<open>Two different children of one node have no descendant in common.\<close>

lemma below_siblings:
  assumes "below a d j" and "below b d j" 
    and "a = 4 * i + k" "1 \<le> k" "k \<le> 4" and "b = 4 * i + k'" "1 \<le> k'" "k' \<le> 4"
  shows "k = k'"
proof -
  have par: "(a - 1) div 4 = i" "(b - 1) div 4 = i" "i < a" "i < b"
    using assms(3-8) by simp_all
  from assms(1,2) obtain e1 e2 where e: "up e1 j = a" "up e2 j = b"
    by (auto simp add: below_def)
  have climb: False if "up m c = c'" "0 < m" "(c - 1) div 4 = i" "i < c'" for m c c'
  proof -
    from that(2) obtain m' where m: "m = m' + 1" by (cases m) simp_all
    have "up m c = up m' (up 1 c)" unfolding m by (rule up_add)
    also have "up 1 c = i" using that(3) by (simp add: up_Suc)
    finally have "up m c \<le> i" by (simp add: up_le)
    with that(1,4) show False by simp
  qed
  have "a = b"
  proof (cases e1 e2 rule: linorder_cases)
    case equal
    with e show ?thesis by simp
  next
    case less
    then have "up e2 j = up (e2 - e1) (up e1 j)" by (simp flip: up_add)
    with e have "up (e2 - e1) a = b" by simp
    from climb [OF this _ par(1) par(4)] less show ?thesis by simp
  next
    case greater
    then have "up e1 j = up (e1 - e2) (up e2 j)" by (simp flip: up_add)
    with e have "up (e1 - e2) b = a" by simp
    from climb [OF this _ par(2) par(3)] greater show ?thesis by simp
  qed
  with assms(3,6) show ?thesis by simp
qed

lemma below_children:
  "below (4 * i + 1) d j \<Longrightarrow> below i (Suc d) j" "below (4 * i + 2) d j \<Longrightarrow> below i (Suc d) j"
  "below (4 * i + 3) d j \<Longrightarrow> below i (Suc d) j" "below (4 * i + 4) d j \<Longrightarrow> below i (Suc d) j"
  by (erule below_child [where k = 1], simp_all)
     (erule below_child [where k = 2], simp_all,
      erule below_child [where k = 3], simp_all,
      erule below_child [where k = 4], simp_all)

lemma below_mono: "below i d j \<Longrightarrow> d \<le> d' \<Longrightarrow> below i d' j"
  by (auto simp add: below_def intro: le_trans)

lemma built_cong:
  "(\<And>j. below i d j \<Longrightarrow> ns' j = ns j) \<Longrightarrow> built ns' i d = built ns i d"
proof (induction d arbitrary: i)
  case 0
  then show ?case by simp
next
  case (Suc d)
  have self: "ns' i = ns i" by (rule Suc.prems) simp
  have kid: "ns' (4 * i + k) = ns (4 * i + k)" if "1 \<le> k" "k \<le> 4" for k
    by (rule Suc.prems, rule below_child [OF below_self [of _ d] refl that])
  have "node_ok ns' i = node_ok ns i"
    using self kid [of 1] kid [of 2] kid [of 3] kid [of 4]
    by (simp add: node_ok_def children_sum_def)
  moreover have "built ns' (4 * i + 1) d = built ns (4 * i + 1) d"
    by (rule Suc.IH, rule Suc.prems, erule below_children)
  moreover have "built ns' (4 * i + 2) d = built ns (4 * i + 2) d"
    by (rule Suc.IH, rule Suc.prems, erule below_children)
  moreover have "built ns' (4 * i + 3) d = built ns (4 * i + 3) d"
    by (rule Suc.IH, rule Suc.prems, erule below_children)
  moreover have "built ns' (4 * i + 4) d = built ns (4 * i + 4) d"
    by (rule Suc.IH, rule Suc.prems, erule below_children)
  ultimately show ?case by simp
qed

lemma leaf_of_below: "below i d (leaf_of d i dx dy)"
proof (induction d arbitrary: i dx dy)
  case 0
  show ?case by simp
next
  case (Suc d)
  show ?case
    by (simp add: below_children Suc.IH)
qed

lemma pix_ok_cong:
  "(\<And>j. below i d j \<Longrightarrow> ns' j = ns j) \<Longrightarrow> pix_ok ns' img i d x y = pix_ok ns img i d x y"
  by (simp add: pix_ok_def leaf_of_below)

lemma build_node_fields [simp]:
  "total_nodes (build_node q i) = total_nodes q" "levels (build_node q i) = levels q"
  "j \<noteq> i \<Longrightarrow> nodes (build_node q i) j = nodes q j"
  by (simp_all add: build_node_def Let_def)

lemma build_node_unrolled:
  "build_node q i =
     (let n1 = nodes q (4 * i + 1); n2 = nodes q (4 * i + 2);
          n3 = nodes q (4 * i + 3); n4 = nodes q (4 * i + 4);
          moy = (of_nat (children_sum (nodes q) i div 4) :: u8);
          var = fdiv (fsqrt (fadd (fadd (fadd (fadd (Fin 0)
                  (fadd (fmul (v n1) (v n1)) (m_diff2 moy (moyenne n1))))
                  (fadd (fmul (v n2) (v n2)) (m_diff2 moy (moyenne n2))))
                  (fadd (fmul (v n3) (v n3)) (m_diff2 moy (moyenne n3))))
                  (fadd (fmul (v n4) (v n4)) (m_diff2 moy (moyenne n4))))) (Fin 4)
      in q\<lparr>nodes := (nodes q)(i :=
               \<lparr>moyenne = moy,
                epsilon = of_nat (children_sum (nodes q) i mod 4),
                u = (if moyenne n1 = moyenne n2 \<and> moyenne n2 = moyenne n3 \<and>
                        moyenne n3 = moyenne n4 \<and>
                        u n1 = 1 \<and> u n2 = 1 \<and> u n3 = 1 \<and> u n4 = 1 then 1 else 0),
                v = var\<rparr>),
            medvar := fadd (medvar q) var,
            maxvar := (if fgt var (maxvar q) then var else maxvar q)\<rparr>)"
proof -
  have a: "4 * i + 0 + 1 = 4 * i + 1" "4 * i + 1 + 1 = 4 * i + 2" "4 * i + 2 + 1 = 4 * i + 3"
    "4 * i + 3 + 1 = 4 * i + 4" by simp_all
  have n: "[a, b, c, d] ! 0 = a" "[a, b, c, d] ! 1 = b" "[a, b, c, d] ! 2 = c" "[a, b, c, d] ! 3 = d"
    for a b c d :: 'a by simp_all
  show ?thesis
    unfolding build_node_def children_sum_def m_diff2_def
    apply (simp only: Let_def list.map a n fold_simps sum_list.Cons sum_list.Nil id_apply o_apply)
    apply (simp only: add_0_right add.assoc)
    done
qed

lemma node_ok_build_node: "node_ok (nodes (build_node q i)) i"
proof -
  have kid: "nodes (build_node q i) (4 * i + k) = nodes q (4 * i + k)" if "1 \<le> k" for k
    using that by simp
  have cs: "children_sum (nodes (build_node q i)) i = children_sum (nodes q) i"
    by (simp add: children_sum_def kid)
  have "(\<forall>k\<in>{1, 2, 3, 4}. u (nodes q (4 * i + k)) = 1 \<and>
             moyenne (nodes q (4 * i + k)) = moyenne (nodes q (4 * i + 1))) \<longleftrightarrow>
        (moyenne (nodes q (4 * i + 1)) = moyenne (nodes q (4 * i + 2)) \<and>
         moyenne (nodes q (4 * i + 2)) = moyenne (nodes q (4 * i + 3)) \<and>
         moyenne (nodes q (4 * i + 3)) = moyenne (nodes q (4 * i + 4)) \<and>
         u (nodes q (4 * i + 1)) = 1 \<and> u (nodes q (4 * i + 2)) = 1 \<and>
         u (nodes q (4 * i + 3)) = 1 \<and> u (nodes q (4 * i + 4)) = 1)"
    by auto
  then show ?thesis
    unfolding node_ok_def cs
    by (simp add: kid build_node_unrolled Let_def del: One_nat_def)
qed

lemma sibling_facts:
  assumes "below (4 * i + k) d j" and "1 \<le> k" and "k \<le> 4"
  shows "j \<noteq> i" and "\<And>k'. 1 \<le> k' \<Longrightarrow> k' \<le> 4 \<Longrightarrow> k' \<noteq> k \<Longrightarrow> \<not> below (4 * i + k') d j"
proof -
  from below_ge [OF assms(1)] assms(2) show "j \<noteq> i" by simp
  fix k' assume k': "1 \<le> k'" "k' \<le> 4" "k' \<noteq> k"
  show "\<not> below (4 * i + k') d j"
  proof
    assume "below (4 * i + k') d j"
    from below_siblings [OF assms(1) this refl assms(2,3) refl k'(1,2)] k'(3)
    show False by simp
  qed
qed

lemma siblings:
  "below (4 * i + 1) d j \<Longrightarrow>
     j \<noteq> i \<and> \<not> below (4 * i + 2) d j \<and> \<not> below (4 * i + 3) d j \<and> \<not> below (4 * i + 4) d j"
  "below (4 * i + 2) d j \<Longrightarrow>
     j \<noteq> i \<and> \<not> below (4 * i + 1) d j \<and> \<not> below (4 * i + 3) d j \<and> \<not> below (4 * i + 4) d j"
  "below (4 * i + 3) d j \<Longrightarrow>
     j \<noteq> i \<and> \<not> below (4 * i + 1) d j \<and> \<not> below (4 * i + 2) d j \<and> \<not> below (4 * i + 4) d j"
  "below (4 * i + 4) d j \<Longrightarrow>
     j \<noteq> i \<and> \<not> below (4 * i + 1) d j \<and> \<not> below (4 * i + 2) d j \<and> \<not> below (4 * i + 3) d j"
proof -
  show "j \<noteq> i \<and> \<not> below (4 * i + 2) d j \<and> \<not> below (4 * i + 3) d j \<and> \<not> below (4 * i + 4) d j"
    if h: "below (4 * i + 1) d j"
    using sibling_facts(1) [OF h] sibling_facts(2) [OF h, of 2] sibling_facts(2) [OF h, of 3]
      sibling_facts(2) [OF h, of 4] by simp
  show "j \<noteq> i \<and> \<not> below (4 * i + 1) d j \<and> \<not> below (4 * i + 3) d j \<and> \<not> below (4 * i + 4) d j"
    if h: "below (4 * i + 2) d j"
    using sibling_facts(1) [OF h] sibling_facts(2) [OF h, of 1] sibling_facts(2) [OF h, of 3]
      sibling_facts(2) [OF h, of 4] by simp
  show "j \<noteq> i \<and> \<not> below (4 * i + 1) d j \<and> \<not> below (4 * i + 2) d j \<and> \<not> below (4 * i + 4) d j"
    if h: "below (4 * i + 3) d j"
    using sibling_facts(1) [OF h] sibling_facts(2) [OF h, of 1] sibling_facts(2) [OF h, of 2]
      sibling_facts(2) [OF h, of 4] by simp
  show "j \<noteq> i \<and> \<not> below (4 * i + 1) d j \<and> \<not> below (4 * i + 2) d j \<and> \<not> below (4 * i + 3) d j"
    if h: "below (4 * i + 4) d j"
    using sibling_facts(1) [OF h] sibling_facts(2) [OF h, of 1] sibling_facts(2) [OF h, of 2]
      sibling_facts(2) [OF h, of 3] by simp
qed

lemma build_rec_pow:
  "\<exists>q'. build_quadtree_rec q img (2 ^ d) i x y = Some q' \<and>
        total_nodes q' = total_nodes q \<and> levels q' = levels q \<and>
        built (nodes q') i d \<and> pix_ok (nodes q') img i d x y \<and>
        (\<forall>j. \<not> below i d j \<longrightarrow> nodes q' j = nodes q j)"
proof (induction d arbitrary: q i x y)
  case 0
  have "j \<noteq> i" if "\<not> below i 0 j" for j using that by auto
  then show ?case
    by (subst build_quadtree_rec.simps) (simp add: pix_ok_def)
next
  case (Suc d)
  from Suc.IH [of q "4 * i + 1" x y] obtain q1 where
    q1: "build_quadtree_rec q img (2 ^ d) (4 * i + 1) x y = Some q1"
      "total_nodes q1 = total_nodes q" "levels q1 = levels q"
      "built (nodes q1) (4 * i + 1) d" "pix_ok (nodes q1) img (4 * i + 1) d x y"
      "\<And>j. \<not> below (4 * i + 1) d j \<Longrightarrow> nodes q1 j = nodes q j"
    by blast
  from Suc.IH [of q1 "4 * i + 2" "x + 2 ^ d" y] obtain q2 where
    q2: "build_quadtree_rec q1 img (2 ^ d) (4 * i + 2) (x + 2 ^ d) y = Some q2"
      "total_nodes q2 = total_nodes q1" "levels q2 = levels q1"
      "built (nodes q2) (4 * i + 2) d" "pix_ok (nodes q2) img (4 * i + 2) d (x + 2 ^ d) y"
      "\<And>j. \<not> below (4 * i + 2) d j \<Longrightarrow> nodes q2 j = nodes q1 j"
    by blast
  from Suc.IH [of q2 "4 * i + 3" "x + 2 ^ d" "y + 2 ^ d"] obtain q3 where
    q3: "build_quadtree_rec q2 img (2 ^ d) (4 * i + 3) (x + 2 ^ d) (y + 2 ^ d) = Some q3"
      "total_nodes q3 = total_nodes q2" "levels q3 = levels q2"
      "built (nodes q3) (4 * i + 3) d" "pix_ok (nodes q3) img (4 * i + 3) d (x + 2 ^ d) (y + 2 ^ d)"
      "\<And>j. \<not> below (4 * i + 3) d j \<Longrightarrow> nodes q3 j = nodes q2 j"
    by blast
  from Suc.IH [of q3 "4 * i + 4" x "y + 2 ^ d"] obtain q4 where
    q4: "build_quadtree_rec q3 img (2 ^ d) (4 * i + 4) x (y + 2 ^ d) = Some q4"
      "total_nodes q4 = total_nodes q3" "levels q4 = levels q3"
      "built (nodes q4) (4 * i + 4) d" "pix_ok (nodes q4) img (4 * i + 4) d x (y + 2 ^ d)"
      "\<And>j. \<not> below (4 * i + 4) d j \<Longrightarrow> nodes q4 j = nodes q3 j"
    by blast
  define q' where "q' = build_node q4 i"
  have ne: "(2::nat) ^ Suc d \<noteq> 1" and half: "(2::nat) ^ Suc d div 2 = 2 ^ d" by simp_all
  have res: "build_quadtree_rec q img (2 ^ Suc d) i x y = Some q'"
    by (subst build_quadtree_rec.simps)
       (simp only: ne half if_False Let_def q1(1) q2(1) q3(1) q4(1) Option.bind.simps q'_def)
  have last: "nodes q' j = nodes q4 j" if "j \<noteq> i" for j
    using that by (simp add: q'_def)
  have c1: "nodes q' j = nodes q1 j" if "below (4 * i + 1) d j" for j
    using siblings(1) [OF that] by (simp add: last q4(6) q3(6) q2(6))
  have c2: "nodes q' j = nodes q2 j" if "below (4 * i + 2) d j" for j
    using siblings(2) [OF that] by (simp add: last q4(6) q3(6))
  have c3: "nodes q' j = nodes q3 j" if "below (4 * i + 3) d j" for j
    using siblings(3) [OF that] by (simp add: last q4(6))
  have c4: "nodes q' j = nodes q4 j" if "below (4 * i + 4) d j" for j
    using siblings(4) [OF that] by (simp add: last)
  have b: "built (nodes q') (4 * i + 1) d" "built (nodes q') (4 * i + 2) d"
    "built (nodes q') (4 * i + 3) d" "built (nodes q') (4 * i + 4) d"
    using q1(4) q2(4) q3(4) q4(4)
      built_cong [of "4 * i + 1" d "nodes q'" "nodes q1", OF c1]
      built_cong [of "4 * i + 2" d "nodes q'" "nodes q2", OF c2]
      built_cong [of "4 * i + 3" d "nodes q'" "nodes q3", OF c3]
      built_cong [of "4 * i + 4" d "nodes q'" "nodes q4", OF c4]
    by simp_all
  have p: "pix_ok (nodes q') img (4 * i + 1) d x y"
    "pix_ok (nodes q') img (4 * i + 2) d (x + 2 ^ d) y"
    "pix_ok (nodes q') img (4 * i + 3) d (x + 2 ^ d) (y + 2 ^ d)"
    "pix_ok (nodes q') img (4 * i + 4) d x (y + 2 ^ d)"
    using q1(5) q2(5) q3(5) q4(5)
      pix_ok_cong [of "4 * i + 1" d "nodes q'" "nodes q1", OF c1]
      pix_ok_cong [of "4 * i + 2" d "nodes q'" "nodes q2", OF c2]
      pix_ok_cong [of "4 * i + 3" d "nodes q'" "nodes q3", OF c3]
      pix_ok_cong [of "4 * i + 4" d "nodes q'" "nodes q4", OF c4]
    by simp_all
  have "built (nodes q') i (Suc d)"
    using b by (simp add: q'_def node_ok_build_node)
  moreover have "pix_ok (nodes q') img i (Suc d) x y"
    unfolding pix_ok_def
  proof (intro allI impI)
    fix dx dy :: nat assume dx: "dx < 2 ^ Suc d" and dy: "dy < 2 ^ Suc d"
    show "moyenne (nodes q' (leaf_of (Suc d) i dx dy)) =
        image img ((y + dy) * width img + (x + dx))"
    proof (cases "dx < 2 ^ d")
      case xl: True
      show ?thesis
      proof (cases "dy < 2 ^ d")
        case True
        with xl p(1) show ?thesis by (simp add: pix_ok_def)
      next
        case False
        then have "dy - 2 ^ d < 2 ^ d" "y + 2 ^ d + (dy - 2 ^ d) = y + dy" using dy by simp_all
        with xl False p(4) [unfolded pix_ok_def, rule_format, of dx "dy - 2 ^ d"]
        show ?thesis by simp
      qed
    next
      case xr: False
      then have x': "dx - 2 ^ d < 2 ^ d" "x + 2 ^ d + (dx - 2 ^ d) = x + dx" using dx by simp_all
      show ?thesis
      proof (cases "dy < 2 ^ d")
        case True
        with xr x' p(2) [unfolded pix_ok_def, rule_format, of "dx - 2 ^ d" dy]
        show ?thesis by simp
      next
        case False
        then have "dy - 2 ^ d < 2 ^ d" "y + 2 ^ d + (dy - 2 ^ d) = y + dy" using dy by simp_all
        with xr x' False p(3) [unfolded pix_ok_def, rule_format, of "dx - 2 ^ d" "dy - 2 ^ d"]
        show ?thesis by simp
      qed
    qed
  qed
  moreover have "nodes q' j = nodes q j" if "\<not> below i (Suc d) j" for j
  proof -
    have "j \<noteq> i" using that by auto
    moreover have "\<not> below (4 * i + 1) d j" "\<not> below (4 * i + 2) d j"
      "\<not> below (4 * i + 3) d j" "\<not> below (4 * i + 4) d j"
      using that below_children [of i d j] by blast+
    ultimately show ?thesis by (simp add: last q4(6) q3(6) q2(6) q1(6))
  qed
  moreover have "total_nodes q' = total_nodes q" "levels q' = levels q"
    by (simp_all add: q'_def q1 q2 q3 q4)
  ultimately show ?case using res by blast
qed

lemma lvl_eq_0_iff [simp]: "lvl j = 0 \<longleftrightarrow> j = 0"
  by (subst lvl.simps) simp

lemma lvl_up: "lvl (up e j) = lvl j - e"
proof (induction e)
  case 0
  show ?case by simp
next
  case (Suc e)
  show ?case
  proof (cases "up e j = 0")
    case True
    with Suc show ?thesis by (simp add: up_Suc)
  next
    case False
    then have "lvl (up e j) = Suc (lvl ((up e j - 1) div 4))" by (simp add: lvl_parent)
    with Suc show ?thesis by (simp add: up_Suc)
  qed
qed

lemma up_lvl [simp]: "up (lvl j) j = 0"
  using lvl_up [of "lvl j" j] by simp

lemma child_cases:
  assumes "(c - 1) div 4 = (a::nat)" and "0 < c"
  shows "c = 4 * a + 1 \<or> c = 4 * a + 2 \<or> c = 4 * a + 3 \<or> c = 4 * a + 4"
  using assms by linarith

lemma built_at:
  "built ns a d \<Longrightarrow> lvl j = lvl a + e \<Longrightarrow> up e j = a \<Longrightarrow> e \<le> d \<Longrightarrow>
     (if e < d then node_ok ns j else built ns j 0)"
proof (induction d arbitrary: a e)
  case 0
  then show ?case by simp
next
  case (Suc d)
  show ?case
  proof (cases e)
    case 0
    with Suc.prems show ?thesis by simp
  next
    case (Suc e')
    define c where "c = up e' j"
    have par: "(c - 1) div 4 = a" using Suc.prems(3) Suc by (simp add: up_Suc c_def)
    have lc: "lvl c = Suc (lvl a)" using Suc.prems(2) Suc by (simp add: c_def lvl_up)
    then have "0 < c" by (cases "c = 0") simp_all
    from child_cases [OF par this] Suc.prems(1) have bc: "built ns c d" by auto
    have "(if e' < d then node_ok ns j else built ns j 0)"
      by (rule Suc.IH [OF bc]) (use Suc.prems(2,4) Suc lc in \<open>simp_all add: c_def\<close>)
    with Suc show ?thesis by simp
  qed
qed

lemma built_root:
  assumes "built ns 0 n"
  shows "j < first_at n \<Longrightarrow> node_ok ns j"
    and "first_at n \<le> j \<Longrightarrow> j < first_at (Suc n) \<Longrightarrow> built ns j 0"
proof -
  have *: "(if lvl j < n then node_ok ns j else built ns j 0)" if "lvl j \<le> n" for j
    by (rule built_at [OF assms, of j "lvl j"]) (use that in simp_all)
  show "node_ok ns j" if "j < first_at n"
  proof -
    from that have "lvl j < n" by (simp add: lvl_less_iff)
    with * [of j] show ?thesis by simp
  qed
  show "built ns j 0" if "first_at n \<le> j" "j < first_at (Suc n)"
  proof -
    from that have "\<not> lvl j < n" "lvl j < Suc n" by (simp_all add: lvl_less_iff del: first_at.simps)
    with * [of j] show ?thesis by simp
  qed
qed

lemma ilog2_pow [simp]: "ilog2 (2 ^ n) = n"
proof (induction n)
  case 0
  show ?case by (simp add: ilog2.simps)
next
  case (Suc n)
  have "\<not> (2::nat) ^ Suc n < 2" "(2::nat) ^ Suc n div 2 = 2 ^ n" by simp_all
  then show ?case using Suc by (subst ilog2.simps) (simp only: if_False)
qed

lemma build_from_image:
  assumes "width img = 2 ^ n"
  shows "\<exists>q. build_quadtree_from_image img nodes0 = Some q \<and> levels q = n \<and> tree_ok q \<and>
           pix_ok (nodes q) img 0 n 0 0"
proof -
  from build_rec_pow [of "create_empty_quadtree n nodes0" img n 0 0 0] obtain q' where
    q': "build_quadtree_rec (create_empty_quadtree n nodes0) img (2 ^ n) 0 0 0 = Some q'"
      "total_nodes q' = first_at (Suc n)" "levels q' = n"
      "built (nodes q') 0 n" "pix_ok (nodes q') img 0 n 0 0"
    by (auto simp del: first_at.simps)
  define q where "q = q'\<lparr>medvar := fdiv (medvar q')
      (Fin (real_of_int (int (total_nodes q') - 2 ^ (2 * levels q'))))\<rparr>"
  have "build_quadtree_from_image img nodes0 = Some q"
    by (simp add: build_quadtree_from_image_def assms q'(1) q_def Let_def)
  moreover have "tree_ok q"
    using built_root [OF q'(4)] q'(2,3) by (simp add: tree_ok_def q_def del: first_at.simps)
  ultimately show ?thesis using q'(3,5) by (simp add: q_def)
qed

lemma unat_children_sum:
  "unat (of_nat (children_sum ns i div 4) :: u8) = children_sum ns i div 4"
  "unat (of_nat (children_sum ns i mod 4) :: u8) = children_sum ns i mod 4"
proof -
  have b: "unat (x :: u8) < 256" for x using unsigned_less [of x] by simp
  have "children_sum ns i < 1024"
    unfolding children_sum_def
    using b [of "moyenne (ns (4 * i + 1))"] b [of "moyenne (ns (4 * i + 2))"]
      b [of "moyenne (ns (4 * i + 3))"] b [of "moyenne (ns (4 * i + 4))"]
    by linarith
  then have "children_sum ns i div 4 < 256" by simp
  then show "unat (of_nat (children_sum ns i div 4) :: u8) = children_sum ns i div 4"
    by (simp add: unat_of_nat)
  have "children_sum ns i mod 4 < 256" by (rule less_trans [of _ 4]) simp_all
  then show "unat (of_nat (children_sum ns i mod 4) :: u8) = children_sum ns i mod 4"
    by (simp add: unat_of_nat)
qed

section \<open>Properties of the builder\<close>

text \<open>
  C2. In the tree built from a raster whose width is a power of two, at every internal
  node four times the mean plus epsilon is the sum of the means of the four children;
  the mean is that sum divided by 4, rounded down, and epsilon is the sum modulo 4.
\<close>

theorem parent_mean_and_epsilon:
  assumes "width img = 2 ^ n"
  shows "\<exists>q. build_quadtree_from_image img nodes0 = Some q \<and>
     (\<forall>i. \<not> is_leaf q i \<longrightarrow>
        4 * unat (moyenne (nodes q i)) + unat (epsilon (nodes q i)) = children_sum (nodes q) i \<and>
        unat (moyenne (nodes q i)) = children_sum (nodes q) i div 4 \<and>
        unat (epsilon (nodes q i)) = children_sum (nodes q) i mod 4)"
proof -
  from build_from_image [OF assms, of nodes0] obtain q where
    q: "build_quadtree_from_image img nodes0 = Some q" "levels q = n" "tree_ok q"
    by blast
  have "4 * unat (moyenne (nodes q i)) + unat (epsilon (nodes q i)) = children_sum (nodes q) i \<and>
        unat (moyenne (nodes q i)) = children_sum (nodes q) i div 4 \<and>
        unat (epsilon (nodes q i)) = children_sum (nodes q) i mod 4" if "\<not> is_leaf q i" for i
  proof -
    from that q(3) have "i < first_at (levels q)"
      by (simp add: tree_ok_def is_leaf_iff)
    with q(3) have "node_ok (nodes q) i" by (simp add: tree_ok_def)
    then show ?thesis by (simp add: node_ok_def unat_children_sum)
  qed
  with q(1) show ?thesis by blast
qed

lemmas build_eval = build_quadtree_from_image_def create_empty_quadtree_def
  build_quadtree_rec.simps build_node_def ilog2.simps raster_def pixels_of_def Let_def

theorem parent_mean_and_epsilon_witness:
  "\<exists>q. build_quadtree_from_image (raster 2 [10, 20, 40, 30]) junk_nodes = Some q \<and>
      \<not> is_leaf q 0 \<and> children_sum (nodes q) 0 = 100 \<and>
      4 * unat (moyenne (nodes q 0)) + unat (epsilon (nodes q 0)) = 100 \<and>
      unat (moyenne (nodes q 0)) = 25 \<and> unat (epsilon (nodes q 0)) = 0"
proof -
  have w: "width (raster 2 [10, 20, 40, 30]) = 2 ^ 1" by (simp add: raster_def)
  from parent_mean_and_epsilon [OF w, of junk_nodes] obtain q where
    q: "build_quadtree_from_image (raster 2 [10, 20, 40, 30]) junk_nodes = Some q"
      "\<And>i. \<not> is_leaf q i \<Longrightarrow>
        4 * unat (moyenne (nodes q i)) + unat (epsilon (nodes q i)) = children_sum (nodes q) i \<and>
        unat (moyenne (nodes q i)) = children_sum (nodes q) i div 4 \<and>
        unat (epsilon (nodes q i)) = children_sum (nodes q) i mod 4"
    by blast
  from q(1) have e: "\<not> is_leaf q 0" "children_sum (nodes q) 0 = 100"
    by (auto simp add: build_eval is_leaf_def children_sum_def)
  with q(2) [of 0] q(1) show ?thesis by simp
qed

lemma build_rec_total:
  "0 < sz \<Longrightarrow> \<exists>q'. build_quadtree_rec q img sz i x y = Some q' \<and>
      total_nodes q' = total_nodes q \<and> levels q' = levels q"
proof (induction sz arbitrary: q i x y rule: less_induct)
  case (less sz)
  show ?case
  proof (cases "sz = 1")
    case True
    then show ?thesis by (subst build_quadtree_rec.simps) simp
  next
    case False
    with less.prems have h: "sz div 2 < sz" "0 < sz div 2" by simp_all
    note ih = less.IH [OF h]
    from ih [of q "4 * i + 1" x y] obtain q1 where
      q1: "build_quadtree_rec q img (sz div 2) (4 * i + 1) x y = Some q1"
        "total_nodes q1 = total_nodes q" "levels q1 = levels q" by blast
    from ih [of q1 "4 * i + 2" "x + sz div 2" y] obtain q2 where
      q2: "build_quadtree_rec q1 img (sz div 2) (4 * i + 2) (x + sz div 2) y = Some q2"
        "total_nodes q2 = total_nodes q1" "levels q2 = levels q1" by blast
    from ih [of q2 "4 * i + 3" "x + sz div 2" "y + sz div 2"] obtain q3 where
      q3: "build_quadtree_rec q2 img (sz div 2) (4 * i + 3) (x + sz div 2) (y + sz div 2) = Some q3"
        "total_nodes q3 = total_nodes q2" "levels q3 = levels q2" by blast
    from ih [of q3 "4 * i + 4" x "y + sz div 2"] obtain q4 where
      q4: "build_quadtree_rec q3 img (sz div 2) (4 * i + 4) x (y + sz div 2) = Some q4"
        "total_nodes q4 = total_nodes q3" "levels q4 = levels q3" by blast
    have "build_quadtree_rec q img sz i x y = Some (build_node q4 i)"
      by (subst build_quadtree_rec.simps)
         (simp only: False if_False Let_def q1(1) q2(1) q3(1) q4(1) Option.bind.simps)
    then show ?thesis by (simp add: q1 q2 q3 q4)
  qed
qed

text \<open>
  C7, as amended. The builder does not look at the width beyond taking its logarithm:
  for a raster of any positive width, a power of two or not, it returns a tree, whose
  depth is the binary logarithm of the width rounded down.
\<close>

theorem build_accepts_any_width:
  assumes "0 < width img"
  shows "\<exists>q. build_quadtree_from_image img nodes0 = Some q \<and> levels q = ilog2 (width img)"
proof -
  from build_rec_total [OF assms, of "create_empty_quadtree (ilog2 (width img)) nodes0" img 0 0 0]
  obtain q' where "build_quadtree_rec (create_empty_quadtree (ilog2 (width img)) nodes0) img
      (width img) 0 0 0 = Some q'" "levels q' = ilog2 (width img)"
    by auto
  then show ?thesis by (simp add: build_quadtree_from_image_def Let_def)
qed

theorem build_accepts_any_width_witness:
  "\<exists>q. build_quadtree_from_image (raster 3 [10, 20, 40, 30, 1, 2, 3, 4, 5]) junk_nodes = Some q \<and>
     levels q = 1"
  using build_accepts_any_width [of "raster 3 [10, 20, 40, 30, 1, 2, 3, 4, 5]" junk_nodes]
  by (simp add: raster_def ilog2.simps)

text \<open>
  C7 as stated fails: a raster of width 3 is not rejected, the builder returns a tree of
  5 nodes for it.
\<close>

theorem build_width_3_counterexample:
  "map_option total_nodes
     (build_quadtree_from_image (raster 3 [10, 20, 40, 30, 1, 2, 3, 4, 5]) junk_nodes) = Some 5"
  by (simp add: build_eval)

lemma and_then_Inr [simp]: "and_then (Inr a) f = f a"
  by (simp add: and_then_def)

lemma and_then_Inl [simp]: "and_then (Inl e) f = Inl e"
  by (simp add: and_then_def)

lemma wrote_push:
  assumes "wrote s p bs"
  shows "\<exists>s'. push_n_bits s x n = Inr s' \<and> start s' = start s \<and> wrote s' p (bs @ to_bits n x)"
  using pushed [of s p bs x n] assms unfolding wrote_def by blast

lemma wrote_write_node:
  assumes "wrote s p bs"
  shows "\<exists>s'. write_node s n i = Inr s' \<and> start s' = start s \<and>
     wrote s' p (bs @ (if i mod 4 \<noteq> 0 \<or> i = 0 then to_bits 8 (moyenne n) else []) @ tail_bits n)"
proof -
  obtain s1 where s1: "(if i mod 4 \<noteq> 0 \<or> i = 0 then push_n_bits s (moyenne n) 8 else Inr s) = Inr s1"
    "start s1 = start s"
    "wrote s1 p (bs @ (if i mod 4 \<noteq> 0 \<or> i = 0 then to_bits 8 (moyenne n) else []))"
    using wrote_push [OF assms, of "moyenne n" 8] assms by (cases "i mod 4 \<noteq> 0 \<or> i = 0") auto
  from wrote_push [OF s1(3), of "epsilon n" 2] obtain s2 where
    s2: "push_n_bits s1 (epsilon n) 2 = Inr s2" "start s2 = start s1"
    "wrote s2 p ((bs @ (if i mod 4 \<noteq> 0 \<or> i = 0 then to_bits 8 (moyenne n) else [])) @
        to_bits 2 (epsilon n))"
    by blast
  show ?thesis
  proof (cases "epsilon n = 0")
    case True
    from wrote_push [OF s2(3), of "u n" 1] obtain s3 where
      "push_n_bits s2 (u n) 1 = Inr s3" "start s3 = start s2"
      "wrote s3 p (((bs @ (if i mod 4 \<noteq> 0 \<or> i = 0 then to_bits 8 (moyenne n) else [])) @
        to_bits 2 (epsilon n)) @ to_bits 1 (u n))"
      by blast
    with True s1(1,2) s2(1,2) show ?thesis
      by (simp add: write_node_def tail_bits_def)
  next
    case False
    with s1(1,2) s2 show ?thesis
      by (simp add: write_node_def tail_bits_def)
  qed
qed

lemma wrote_encode_node:
  assumes "wrote s p bs"
  shows "\<exists>s'. encode_node q i s = Inr s' \<and> start s' = start s \<and> wrote s' p (bs @ node_bits q i)"
proof (cases "i = 0")
  case True
  with wrote_write_node [OF assms, of "nodes q 0" 0] show ?thesis
    by (simp add: encode_node_def node_bits_def Let_def)
next
  case nz: False
  show ?thesis
  proof (cases "u (nodes q ((i - 1) div 4)) \<noteq> 0")
    case True
    with nz assms show ?thesis by (simp add: encode_node_def node_bits_def Let_def)
  next
    case pu: False
    show ?thesis
    proof (cases "is_leaf q i")
      case True
      with nz pu assms wrote_push [OF assms, of "moyenne (nodes q i)" 8] show ?thesis
        by (cases "i mod 4 = 0") (auto simp add: encode_node_def node_bits_def write_leaf_def Let_def)
    next
      case False
      with nz pu wrote_write_node [OF assms, of "nodes q i" i] show ?thesis
        by (simp add: encode_node_def node_bits_def Let_def)
    qed
  qed
qed

lemma wrote_encode_loop:
  assumes "wrote s p bs"
  shows "\<exists>s'. fold (\<lambda>i r. and_then r (encode_node q i)) [0..<k] (Inr s) = Inr s' \<and>
     start s' = start s \<and> wrote s' p (bs @ concat (map (node_bits q) [0..<k]))"
proof (induction k)
  case 0
  with assms show ?case by simp
next
  case (Suc k)
  then obtain s1 where s1: "fold (\<lambda>i r. and_then r (encode_node q i)) [0..<k] (Inr s) = Inr s1"
    "start s1 = start s" "wrote s1 p (bs @ concat (map (node_bits q) [0..<k]))"
    by blast
  from wrote_encode_node [OF s1(3), of q k] s1(1,2) show ?case by auto
qed

lemma allocated_write_node: "write_node s n i = Inr s' \<Longrightarrow> allocated s' = allocated s"
  by (auto simp add: write_node_def and_then_def split: sum.splits if_splits
      dest!: allocated_push_n_bits)

lemma allocated_encode_node: "encode_node q i s = Inr s' \<Longrightarrow> allocated s' = allocated s"
  by (auto simp add: encode_node_def write_leaf_def Let_def split: if_splits
      dest!: allocated_push_n_bits allocated_write_node)

lemma allocated_encode_loop:
  "fold (\<lambda>i r. and_then r (encode_node q i)) [0..<k] (Inr s) = Inr s' \<Longrightarrow>
     allocated s' = allocated s"
proof (induction k arbitrary: s')
  case 0
  then show ?case by simp
next
  case (Suc k)
  then show ?case
    by (cases "fold (\<lambda>i r. and_then r (encode_node q i)) [0..<k] (Inr s)")
       (auto dest: allocated_encode_node)
qed

lemma encode_stored:
  assumes "total_nodes q * 2 \<le> 2147483647"
  shows "\<exists>s pad. encode q m = Inr s \<and> capa s = 8 \<and> start s = 0 \<and> pad < 8 \<and>
     allocated s = total_nodes q * 2 \<and>
     8 * ptr s = length (to_bits 8 (of_nat (levels q)) @ body_bits q @ replicate pad False) \<and>
     stored (mem s) 0 (to_bits 8 (of_nat (levels q)) @ body_bits q @ replicate pad False)"
proof -
  have w0: "wrote (initBitStream (total_nodes q * 2) m) 0 []"
    by (simp add: wrote_def initBitStream_def wpos_def)
  from wrote_push [OF w0, of "of_nat (levels q)" 8] obtain s1 where
    s1: "push_n_bits (initBitStream (total_nodes q * 2) m) (of_nat (levels q)) 8 = Inr s1"
      "start s1 = 0" "wrote s1 0 (to_bits 8 (of_nat (levels q)))"
    by (auto simp add: initBitStream_def)
  from wrote_encode_loop [OF s1(3), of q "total_nodes q"] obtain s2 where
    s2: "fold (\<lambda>i r. and_then r (encode_node q i)) [0..<total_nodes q] (Inr s1) = Inr s2"
      "start s2 = 0" "wrote s2 0 (to_bits 8 (of_nat (levels q)) @ body_bits q)"
    using s1(2) by (auto simp add: body_bits_def)
  from s2(3) have "capa s2 \<le> 8" "stored (mem s2) 0 (to_bits 8 (of_nat (levels q)) @ body_bits q)"
    "wpos s2 = 0 + length (to_bits 8 (of_nat (levels q)) @ body_bits q)"
    by (simp_all add: wrote_def)
  from finished [OF this] obtain s3 pad where
    s3: "finishBitStream s2 = Inr s3" "capa s3 = 8" "start s3 = start s2" "pad < 8"
    "8 * ptr s3 = 0 + length ((to_bits 8 (of_nat (levels q)) @ body_bits q) @ replicate pad False)"
    "stored (mem s3) 0 ((to_bits 8 (of_nat (levels q)) @ body_bits q) @ replicate pad False)"
    by blast
  have "allocated s3 = total_nodes q * 2"
    using allocated_finishBitStream [OF s3(1)] allocated_encode_loop [OF s2(1)]
      allocated_push_n_bits [OF s1(1)]
    by (simp add: initBitStream_def)
  moreover have "encode q m = Inr s3"
    using assms s1(1) s2(1) s3(1) by (simp add: encode_def)
  ultimately show ?thesis using s2(2) s3(2-6) by auto
qed

lemma take_bit_8 [simp]: "take_bit 8 (w :: u8) = w"
  by (simp add: take_bit_word_eq_self)

lemma reads_pull:
  assumes "reads s (to_bits n x @ rest)" and "n \<le> 8"
  shows "\<exists>s'. read_n_bits s n = Inr (s', take_bit n x) \<and> reads s' rest"
  using pulled [of s n x rest] assms unfolding reads_def by blast

lemma enc_ok_leaf: "built ns j 0 \<Longrightarrow> enc_ok (ns j)"
  by (simp add: enc_ok_def)

lemma uniform_children_sum:
  assumes "\<forall>k\<in>{1, 2, 3, 4}. u (ns (4 * i + k)) = 1 \<and> moyenne (ns (4 * i + k)) = moyenne (ns (4 * i + 1))"
  shows "children_sum ns i = 4 * unat (moyenne (ns (4 * i + 1)))"
  using assms by (simp add: children_sum_def)

lemma enc_ok_node:
  assumes "node_ok ns j"
  shows "enc_ok (ns j)"
proof -
  let ?s = "children_sum ns j"
  have e: "epsilon (ns j) = of_nat (?s mod 4)" using assms by (simp add: node_ok_def)
  have "take_bit 2 (?s mod 4) = ?s mod 4" by (simp add: take_bit_eq_mod)
  then have 1: "take_bit 2 (epsilon (ns j)) = epsilon (ns j)"
    unfolding e by (simp add: take_bit_of_nat)
  have 2: "take_bit 1 (u (ns j)) = u (ns j)"
    using assms by (simp add: node_ok_def split: if_splits)
  have 3: "u (ns j) = 0" if "epsilon (ns j) \<noteq> 0"
  proof (rule ccontr)
    assume "u (ns j) \<noteq> 0"
    with assms have "\<forall>k\<in>{1, 2, 3, 4}. u (ns (4 * j + k)) = 1 \<and>
        moyenne (ns (4 * j + k)) = moyenne (ns (4 * j + 1))"
      unfolding node_ok_def by (metis (no_types, lifting))
    from uniform_children_sum [OF this] have "?s mod 4 = 0" by simp
    with e that show False by simp
  qed
  from 1 2 3 show ?thesis by (simp add: enc_ok_def)
qed

lemma read_u_ok:
  assumes "reads s ((if epsilon n = 0 then to_bits 1 uu else []) @ rest)"
    and "take_bit 1 uu = uu" and "epsilon n \<noteq> 0 \<longrightarrow> uu = 0"
  shows "\<exists>s'. read_u s n = Inr (s', n\<lparr>u := uu\<rparr>) \<and> reads s' rest"
proof (cases "epsilon n = 0")
  case True
  with assms(1) have "reads s (to_bits 1 uu @ rest)" by simp
  from reads_pull [OF this] assms(2) True show ?thesis
    by (auto simp add: read_u_def)
next
  case False
  with assms show ?thesis by (simp add: read_u_def)
qed

lemma read_tail_ok:
  assumes "reads s (tail_bits t @ rest)" and "enc_ok t"
  shows "\<exists>s'. and_then (read_n_bits s 2) (\<lambda>(s1, d1). read_u s1 (n\<lparr>epsilon := d1\<rparr>)) =
            Inr (s', n\<lparr>epsilon := epsilon t, u := u t\<rparr>) \<and> reads s' rest"
proof -
  from assms(1) have "reads s (to_bits 2 (epsilon t) @
      ((if epsilon t = 0 then to_bits 1 (u t) else []) @ rest))"
    by (simp add: tail_bits_def)
  from reads_pull [OF this] assms(2) obtain s1 where
    s1: "read_n_bits s 2 = Inr (s1, epsilon t)"
      "reads s1 ((if epsilon t = 0 then to_bits 1 (u t) else []) @ rest)"
    by (auto simp add: enc_ok_def)
  from read_u_ok [of s1 "n\<lparr>epsilon := epsilon t\<rparr>" "u t" rest] s1(2) assms(2)
  obtain s2 where "read_u s1 (n\<lparr>epsilon := epsilon t\<rparr>) = Inr (s2, n\<lparr>epsilon := epsilon t, u := u t\<rparr>)"
    "reads s2 rest"
    by (auto simp add: enc_ok_def)
  with s1(1) show ?thesis by simp
qed

lemma read_node_ok:
  assumes "reads s (to_bits 8 (moyenne t) @ tail_bits t @ rest)" and "enc_ok t"
  shows "\<exists>s'. read_node s n = Inr (s', n\<lparr>moyenne := moyenne t, epsilon := epsilon t, u := u t\<rparr>) \<and>
            reads s' rest"
proof -
  from reads_pull [OF assms(1)] obtain s1 where
    s1: "read_n_bits s 8 = Inr (s1, moyenne t)" "reads s1 (tail_bits t @ rest)"
    by auto
  from read_tail_ok [OF s1(2) assms(2), of "n\<lparr>moyenne := moyenne t\<rparr>"] s1(1)
  show ?thesis by (simp add: read_node_def)
qed

lemma read_leaf_ok:
  assumes "reads s (to_bits 8 m @ rest)"
  shows "\<exists>s'. read_leaf s n = Inr (s', n\<lparr>moyenne := m, epsilon := 0, u := 1\<rparr>) \<and> reads s' rest"
  using reads_pull [OF assms] by (auto simp add: read_leaf_def)

lemma tree_node: "tree_ok q \<Longrightarrow> j < first_at (levels q) \<Longrightarrow> node_ok (nodes q) j"
  by (simp add: tree_ok_def)

lemma tree_is_leaf: "tree_ok q \<Longrightarrow> is_leaf q j \<longleftrightarrow> first_at (levels q) \<le> j"
  by (simp add: tree_ok_def is_leaf_iff)

lemma tree_leaf: "tree_ok q \<Longrightarrow> j < total_nodes q \<Longrightarrow> is_leaf q j \<Longrightarrow> built (nodes q) j 0"
  by (simp add: tree_ok_def is_leaf_iff)

lemma tree_enc_ok:
  assumes "tree_ok q" and "j < total_nodes q"
  shows "enc_ok (nodes q j)"
proof (cases "is_leaf q j")
  case True
  from tree_leaf [OF assms this] show ?thesis by (rule enc_ok_leaf)
next
  case False
  with assms(1) have "j < first_at (levels q)" by (simp add: tree_is_leaf)
  from tree_node [OF assms(1) this] show ?thesis by (rule enc_ok_node)
qed

lemma parent_internal:
  assumes "tree_ok q" and "0 < k" and "k < total_nodes q"
  shows "(k - 1) div 4 < first_at (levels q)"
proof -
  from assms(1,3) have "k < 4 * first_at (levels q) + 1" by (simp add: tree_ok_def)
  with assms(2) show ?thesis by simp
qed

lemma child_of_parent:
  assumes "0 < (k::nat)"
  shows "(k mod 4 = 1 \<and> k = 4 * ((k - 1) div 4) + 1) \<or> (k mod 4 = 2 \<and> k = 4 * ((k - 1) div 4) + 2) \<or>
     (k mod 4 = 3 \<and> k = 4 * ((k - 1) div 4) + 3) \<or> (k mod 4 = 0 \<and> k = 4 * ((k - 1) div 4) + 4)"
proof -
  define p r where "p = (k - 1) div 4" and "r = (k - 1) mod 4 + 1"
  have k: "k = 4 * p + r" using assms by (simp add: p_def r_def)
  have m: "k mod 4 = r mod 4" unfolding k by (rule mod_mult_self4)
  have "0 < r" "r \<le> 4" by (simp_all add: r_def Suc_leI)
  then consider "r = 1" | "r = 2" | "r = 3" | "r = 4" by linarith
  then show ?thesis
    using k m unfolding p_def [symmetric] by cases simp_all
qed

lemma node_okD:
  assumes "node_ok ns i"
  shows "moyenne (ns i) = of_nat (children_sum ns i div 4)"
    and "epsilon (ns i) = of_nat (children_sum ns i mod 4)"
    and "u (ns i) \<noteq> 0 \<Longrightarrow>
      u (ns (4 * i + 1)) = 1 \<and> u (ns (4 * i + 2)) = 1 \<and> u (ns (4 * i + 3)) = 1 \<and>
      u (ns (4 * i + 4)) = 1 \<and>
      moyenne (ns (4 * i + 1)) = moyenne (ns i) \<and> moyenne (ns (4 * i + 2)) = moyenne (ns i) \<and>
      moyenne (ns (4 * i + 3)) = moyenne (ns i) \<and> moyenne (ns (4 * i + 4)) = moyenne (ns i)"
proof -
  show m: "moyenne (ns i) = of_nat (children_sum ns i div 4)"
    and "epsilon (ns i) = of_nat (children_sum ns i mod 4)"
    using assms unfolding node_ok_def by blast+
  assume "u (ns i) \<noteq> 0"
  with assms have all: "\<forall>k\<in>{1, 2, 3, 4}. u (ns (4 * i + k)) = 1 \<and>
      moyenne (ns (4 * i + k)) = moyenne (ns (4 * i + 1))"
    unfolding node_ok_def by (metis (no_types, lifting))
  from uniform_children_sum [OF all] m have "moyenne (ns i) = moyenne (ns (4 * i + 1))"
    by simp
  moreover from all have "u (ns (4 * i + 1)) = 1" "u (ns (4 * i + 2)) = 1" "u (ns (4 * i + 3)) = 1"
    "u (ns (4 * i + 4)) = 1" "moyenne (ns (4 * i + 2)) = moyenne (ns (4 * i + 1))"
    "moyenne (ns (4 * i + 3)) = moyenne (ns (4 * i + 1))"
    "moyenne (ns (4 * i + 4)) = moyenne (ns (4 * i + 1))"
    by blast+
  ultimately show "u (ns (4 * i + 1)) = 1 \<and> u (ns (4 * i + 2)) = 1 \<and> u (ns (4 * i + 3)) = 1 \<and>
      u (ns (4 * i + 4)) = 1 \<and>
      moyenne (ns (4 * i + 1)) = moyenne (ns i) \<and> moyenne (ns (4 * i + 2)) = moyenne (ns i) \<and>
      moyenne (ns (4 * i + 3)) = moyenne (ns i) \<and> moyenne (ns (4 * i + 4)) = moyenne (ns i)"
    by simp
qed

lemma uniform_parent:
  assumes t: "tree_ok q" and k: "0 < k" "k < total_nodes q"
    and pu: "u (nodes q ((k - 1) div 4)) \<noteq> 0"
  shows "moyenne (nodes q k) = moyenne (nodes q ((k - 1) div 4))"
    and "epsilon (nodes q k) = 0" and "u (nodes q k) = 1"
proof -
  define p where "p = (k - 1) div 4"
  define ns where "ns = nodes q"
  have ok: "node_ok ns p" unfolding p_def ns_def by (rule tree_node [OF t parent_internal [OF t k]])
  note kids = node_okD(3) [OF ok pu [folded p_def ns_def]]
  from child_of_parent [OF k(1), folded p_def]
  consider "k = 4 * p + 1" | "k = 4 * p + 2" | "k = 4 * p + 3" | "k = 4 * p + 4" by blast
  then have kid: "u (ns k) = 1 \<and> moyenne (ns k) = moyenne (ns p)"
    using kids by cases blast+
  then show "moyenne (nodes q k) = moyenne (nodes q ((k - 1) div 4))" "u (nodes q k) = 1"
    by (simp_all add: p_def ns_def)
  from tree_enc_ok [OF t k(2)] kid show "epsilon (nodes q k) = 0"
    unfolding enc_ok_def ns_def by force
qed

lemma fourth_child:
  assumes t: "tree_ok q" and k: "0 < k" "k < total_nodes q" and m: "k mod 4 = 0"
  shows "word_of_int (4 * uint (moyenne (nodes q ((k - 1) div 4))) +
            uint (epsilon (nodes q ((k - 1) div 4)))
            - uint (moyenne (nodes q (k - 1))) - uint (moyenne (nodes q (k - 2)))
            - uint (moyenne (nodes q (k - 3)))) = moyenne (nodes q k)"
proof -
  define p where "p = (k - 1) div 4"
  define ns where "ns = nodes q"
  define s where "s = children_sum ns p"
  have ok: "node_ok ns p" unfolding p_def ns_def by (rule tree_node [OF t parent_internal [OF t k]])
  from child_of_parent [OF k(1), folded p_def] m have kp: "k = 4 * p + 4" by auto
  have idx: "k - 1 = 4 * p + 3" "k - 2 = 4 * p + 2" "k - 3 = 4 * p + 1"
    using kp by linarith+
  have pm: "uint (moyenne (ns p)) = int (s div 4)" and pe: "uint (epsilon (ns p)) = int (s mod 4)"
    unfolding node_okD(1,2) [OF ok] s_def by (simp_all only: uint_nat unat_children_sum)
  have "int s = int (4 * (s div 4) + s mod 4)" by simp
  also have "\<dots> = 4 * int (s div 4) + int (s mod 4)"
    by (simp only: of_nat_add of_nat_mult of_nat_numeral)
  finally have 1: "4 * uint (moyenne (ns p)) + uint (epsilon (ns p)) = int s"
    using pm pe by linarith
  have 2: "int s = uint (moyenne (ns (4 * p + 1))) + uint (moyenne (ns (4 * p + 2))) +
      uint (moyenne (ns (4 * p + 3))) + uint (moyenne (ns (4 * p + 4)))"
    unfolding s_def children_sum_def uint_nat by (simp only: of_nat_add)
  have "4 * uint (moyenne (ns p)) + uint (epsilon (ns p))
      - uint (moyenne (ns (k - 1))) - uint (moyenne (ns (k - 2))) - uint (moyenne (ns (k - 3)))
      = uint (moyenne (ns (4 * p + 4)))"
    unfolding idx using 1 2 by linarith
  then have "word_of_int (4 * uint (moyenne (ns p)) + uint (epsilon (ns p))
      - uint (moyenne (ns (k - 1))) - uint (moyenne (ns (k - 2))) - uint (moyenne (ns (k - 3))))
      = moyenne (ns (4 * p + 4))"
    by (simp only: word_of_int_uint)
  moreover have "moyenne (ns (4 * p + 4)) = moyenne (ns k)" by (simp only: kp [symmetric])
  ultimately show ?thesis unfolding p_def ns_def by (rule trans)
qed

lemma decode_node_cases:
  "decode_node 0 (qk, sk) =
     and_then (read_node sk (nodes qk 0))
       (\<lambda>(s, node). Inr (qk\<lparr>nodes := (nodes qk)(0 := node)\<rparr>, s))"
  "0 < i \<Longrightarrow> u (nodes qk ((i - 1) div 4)) \<noteq> 0 \<Longrightarrow>
   decode_node i (qk, sk) =
     Inr (qk\<lparr>nodes := (nodes qk)(i := (nodes qk i)
            \<lparr>moyenne := moyenne (nodes qk ((i - 1) div 4)), epsilon := 0, u := 1\<rparr>)\<rparr>, sk)"
  "0 < i \<Longrightarrow> u (nodes qk ((i - 1) div 4)) = 0 \<Longrightarrow> i mod 4 = 0 \<Longrightarrow>
   decode_node i (qk, sk) =
     and_then (interpolation_4th_child sk qk (nodes qk i) (nodes qk ((i - 1) div 4)) i)
       (\<lambda>(s, node). Inr (qk\<lparr>nodes := (nodes qk)(i := node)\<rparr>, s))"
  "0 < i \<Longrightarrow> u (nodes qk ((i - 1) div 4)) = 0 \<Longrightarrow> i mod 4 \<noteq> 0 \<Longrightarrow> is_leaf qk i \<Longrightarrow>
   decode_node i (qk, sk) =
     and_then (read_leaf sk (nodes qk i))
       (\<lambda>(s, node). Inr (qk\<lparr>nodes := (nodes qk)(i := node)\<rparr>, s))"
  "0 < i \<Longrightarrow> u (nodes qk ((i - 1) div 4)) = 0 \<Longrightarrow> i mod 4 \<noteq> 0 \<Longrightarrow> \<not> is_leaf qk i \<Longrightarrow>
   decode_node i (qk, sk) =
     and_then (read_node sk (nodes qk i))
       (\<lambda>(s, node). Inr (qk\<lparr>nodes := (nodes qk)(i := node)\<rparr>, s))"
  by (simp_all add: decode_node_def Let_def)

lemma node_bits_cases:
  "node_bits q 0 = to_bits 8 (moyenne (nodes q 0)) @ tail_bits (nodes q 0)"
  "0 < i \<Longrightarrow> u (nodes q ((i - 1) div 4)) \<noteq> 0 \<Longrightarrow> node_bits q i = []"
  "0 < i \<Longrightarrow> u (nodes q ((i - 1) div 4)) = 0 \<Longrightarrow> i mod 4 = 0 \<Longrightarrow> is_leaf q i \<Longrightarrow>
     node_bits q i = []"
  "0 < i \<Longrightarrow> u (nodes q ((i - 1) div 4)) = 0 \<Longrightarrow> i mod 4 = 0 \<Longrightarrow> \<not> is_leaf q i \<Longrightarrow>
     node_bits q i = tail_bits (nodes q i)"
  "0 < i \<Longrightarrow> u (nodes q ((i - 1) div 4)) = 0 \<Longrightarrow> i mod 4 \<noteq> 0 \<Longrightarrow> is_leaf q i \<Longrightarrow>
     node_bits q i = to_bits 8 (moyenne (nodes q i))"
  "0 < i \<Longrightarrow> u (nodes q ((i - 1) div 4)) = 0 \<Longrightarrow> i mod 4 \<noteq> 0 \<Longrightarrow> \<not> is_leaf q i \<Longrightarrow>
     node_bits q i = to_bits 8 (moyenne (nodes q i)) @ tail_bits (nodes q i)"
  by (simp_all add: node_bits_def Let_def)

lemma same_fields_upd [simp]:
  "same_fields (n\<lparr>moyenne := moyenne t, epsilon := epsilon t, u := u t\<rparr>) t"
  by (simp add: same_fields_def)

lemma decode_node_ok:
  assumes t: "tree_ok q" and k: "k < total_nodes q"
    and lv: "levels qk = levels q" and tn: "total_nodes qk = total_nodes q"
    and same: "\<And>j. j < k \<Longrightarrow> same_fields (nodes qk j) (nodes q j)"
    and r: "reads sk (node_bits q k @ rest)"
  shows "\<exists>qk' sk'. decode_node k (qk, sk) = Inr (qk', sk') \<and>
     levels qk' = levels q \<and> total_nodes qk' = total_nodes q \<and>
     (\<forall>j<Suc k. same_fields (nodes qk' j) (nodes q j)) \<and> reads sk' rest"
proof -
  define tg where "tg = nodes q k"
  have fin: ?thesis
    if "decode_node k (qk, sk) = Inr (qk\<lparr>nodes := (nodes qk)(k := n')\<rparr>, sk')"
      and "same_fields n' tg" and "reads sk' rest" for n' sk'
  proof -
    have "same_fields (((nodes qk)(k := n')) j) (nodes q j)" if "j < Suc k" for j
      using that same [of j] \<open>same_fields n' tg\<close> by (cases "j = k") (simp_all add: tg_def)
    with that(1,3) lv tn show ?thesis by simp
  qed
  have enc: "enc_ok tg" unfolding tg_def by (rule tree_enc_ok [OF t k])
  have leaf_eq: "is_leaf qk k = is_leaf q k" by (simp add: is_leaf_def lv tn)
  show ?thesis
  proof (cases "k = 0")
    case True
    from r have "reads sk (to_bits 8 (moyenne tg) @ tail_bits tg @ rest)"
      by (simp add: True node_bits_cases(1) tg_def)
    from read_node_ok [OF this enc, of "nodes qk 0"] obtain s' where
      "read_node sk (nodes qk 0) =
         Inr (s', (nodes qk 0)\<lparr>moyenne := moyenne tg, epsilon := epsilon tg, u := u tg\<rparr>)"
      "reads s' rest" by blast
    then show ?thesis
      by (intro fin [of "(nodes qk 0)\<lparr>moyenne := moyenne tg, epsilon := epsilon tg, u := u tg\<rparr>" s'])
         (simp_all add: True decode_node_cases(1) same_fields_def)
  next
    case False
    then have pos: "0 < k" by simp
    define p where "p = (k - 1) div 4"
    have "p < k" using pos by (simp add: p_def)
    from same [OF this] have par: "moyenne (nodes qk p) = moyenne (nodes q p)"
      "epsilon (nodes qk p) = epsilon (nodes q p)" "u (nodes qk p) = u (nodes q p)"
      by (simp_all add: same_fields_def)
    show ?thesis
    proof (cases "u (nodes q p) \<noteq> 0")
      case True
      note up = uniform_parent [OF t pos k True [unfolded p_def]]
      have "reads sk rest" using r True pos by (simp add: node_bits_cases(2) p_def)
      moreover have "same_fields ((nodes qk k)
          \<lparr>moyenne := moyenne (nodes qk p), epsilon := 0, u := 1\<rparr>) tg"
        using up par(1) by (simp add: same_fields_def tg_def p_def)
      moreover have "decode_node k (qk, sk) = Inr (qk\<lparr>nodes := (nodes qk)(k := (nodes qk k)
          \<lparr>moyenne := moyenne (nodes qk p), epsilon := 0, u := 1\<rparr>)\<rparr>, sk)"
        using True par(3) pos by (simp add: decode_node_cases(2) p_def)
      ultimately show ?thesis by (intro fin [of _ sk])
    next
      case nu: False
      then have nu': "u (nodes q ((k - 1) div 4)) = 0" "u (nodes qk ((k - 1) div 4)) = 0"
        using par(3) by (simp_all add: p_def)
      show ?thesis
      proof (cases "k mod 4 = 0")
        case m0: True
        have ge: "4 \<le> k" using m0 pos by presburger
        then have "k - 1 < k" "k - 2 < k" "k - 3 < k" by simp_all
        from this [THEN same] have sib: "moyenne (nodes qk (k - 1)) = moyenne (nodes q (k - 1))"
          "moyenne (nodes qk (k - 2)) = moyenne (nodes q (k - 2))"
          "moyenne (nodes qk (k - 3)) = moyenne (nodes q (k - 3))"
          by (simp_all add: same_fields_def)
        define n1 where "n1 = (nodes qk k)\<lparr>moyenne := moyenne tg\<rparr>"
        have interp: "(nodes qk k)\<lparr>moyenne := word_of_int
            (4 * uint (moyenne (nodes qk ((k - 1) div 4))) + uint (epsilon (nodes qk ((k - 1) div 4)))
               - uint (moyenne (nodes qk (k - 1))) - uint (moyenne (nodes qk (k - 2)))
               - uint (moyenne (nodes qk (k - 3))))\<rparr> = n1"
          unfolding n1_def tg_def sib par [unfolded p_def] fourth_child [OF t pos k m0] ..
        have i4: "interpolation_4th_child sk qk (nodes qk k) (nodes qk ((k - 1) div 4)) k =
            (if is_leaf qk k then Inr (sk, n1\<lparr>epsilon := 0, u := 1\<rparr>)
             else and_then (read_n_bits sk 2) (\<lambda>(s1, d1). read_u s1 (n1\<lparr>epsilon := d1\<rparr>)))"
          by (simp only: interpolation_4th_child_def Let_def interp)
        show ?thesis
        proof (cases "is_leaf q k")
          case True
          from tree_leaf [OF t k True] have lf: "epsilon tg = 0" "u tg = 1" by (simp_all add: tg_def)
          have "reads sk rest" using r pos nu'(1) m0 True by (simp add: node_bits_cases(3))
          moreover have "same_fields (n1\<lparr>epsilon := 0, u := 1\<rparr>) tg"
            using lf by (simp add: same_fields_def n1_def)
          moreover have "decode_node k (qk, sk) =
              Inr (qk\<lparr>nodes := (nodes qk)(k := n1\<lparr>epsilon := 0, u := 1\<rparr>)\<rparr>, sk)"
            unfolding decode_node_cases(3) [OF pos nu'(2) m0] i4
            using True leaf_eq by simp
          ultimately show ?thesis by (intro fin [of _ sk])
        next
          case False
          have "reads sk (tail_bits tg @ rest)"
            using r pos nu'(1) m0 False by (simp add: node_bits_cases(4) tg_def)
          from read_tail_ok [OF this enc, of n1] obtain s' where
            s': "and_then (read_n_bits sk 2) (\<lambda>(s1, d1). read_u s1 (n1\<lparr>epsilon := d1\<rparr>)) =
              Inr (s', n1\<lparr>epsilon := epsilon tg, u := u tg\<rparr>)" "reads s' rest"
            by blast
          have "same_fields (n1\<lparr>epsilon := epsilon tg, u := u tg\<rparr>) tg"
            by (simp add: same_fields_def n1_def)
          moreover have "decode_node k (qk, sk) =
              Inr (qk\<lparr>nodes := (nodes qk)(k := n1\<lparr>epsilon := epsilon tg, u := u tg\<rparr>)\<rparr>, s')"
            unfolding decode_node_cases(3) [OF pos nu'(2) m0] i4
            using False leaf_eq by (simp add: s'(1))
          ultimately show ?thesis using s'(2) by (intro fin [of _ s'])
        qed
      next
        case mn: False
        show ?thesis
        proof (cases "is_leaf q k")
          case True
          from tree_leaf [OF t k True] have lf: "epsilon tg = 0" "u tg = 1" by (simp_all add: tg_def)
          have "reads sk (to_bits 8 (moyenne tg) @ rest)"
            using r pos nu'(1) mn True by (simp add: node_bits_cases(5) tg_def)
          from read_leaf_ok [OF this, of "nodes qk k"] obtain s' where
            s': "read_leaf sk (nodes qk k) =
               Inr (s', (nodes qk k)\<lparr>moyenne := moyenne tg, epsilon := 0, u := 1\<rparr>)" "reads s' rest"
            by blast
          have "same_fields ((nodes qk k)\<lparr>moyenne := moyenne tg, epsilon := 0, u := 1\<rparr>) tg"
            using lf by (simp add: same_fields_def)
          moreover have "decode_node k (qk, sk) = Inr (qk\<lparr>nodes := (nodes qk)(k :=
              (nodes qk k)\<lparr>moyenne := moyenne tg, epsilon := 0, u := 1\<rparr>)\<rparr>, s')"
            using True leaf_eq by (simp add: decode_node_cases(4) [OF pos nu'(2) mn] s'(1))
          ultimately show ?thesis using s'(2) by (intro fin [of _ s'])
        next
          case False
          have "reads sk (to_bits 8 (moyenne tg) @ tail_bits tg @ rest)"
            using r pos nu'(1) mn False by (simp add: node_bits_cases(6) tg_def)
          from read_node_ok [OF this enc, of "nodes qk k"] obtain s' where
            s': "read_node sk (nodes qk k) =
               Inr (s', (nodes qk k)\<lparr>moyenne := moyenne tg, epsilon := epsilon tg, u := u tg\<rparr>)"
              "reads s' rest"
            by blast
          have "decode_node k (qk, sk) = Inr (qk\<lparr>nodes := (nodes qk)(k :=
              (nodes qk k)\<lparr>moyenne := moyenne tg, epsilon := epsilon tg, u := u tg\<rparr>)\<rparr>, s')"
            using False leaf_eq by (simp add: decode_node_cases(5) [OF pos nu'(2) mn] s'(1))
          then show ?thesis using s'(2)
            by (intro fin [of "(nodes qk k)\<lparr>moyenne := moyenne tg, epsilon := epsilon tg, u := u tg\<rparr>" s'])
               (simp_all add: same_fields_def)
        qed
      qed
    qed
  qed
qed

lemma decode_loop:
  assumes t: "tree_ok q" and lv: "levels q0 = levels q" and tn: "total_nodes q0 = total_nodes q"
    and r: "reads s0 (body_bits q @ rest)"
  shows "k \<le> total_nodes q \<Longrightarrow>
     \<exists>qk sk. fold (\<lambda>i r. and_then r (decode_node i)) [0..<k] (Inr (q0, s0)) = Inr (qk, sk) \<and>
       levels qk = levels q \<and> total_nodes qk = total_nodes q \<and>
       (\<forall>j<k. same_fields (nodes qk j) (nodes q j)) \<and>
       reads sk (concat (map (node_bits q) [k..<total_nodes q]) @ rest)"
proof (induction k)
  case 0
  with lv tn r show ?case by (simp add: body_bits_def)
next
  case (Suc k)
  then have k: "k < total_nodes q" by simp
  from Suc.IH k obtain qk sk where
    st: "fold (\<lambda>i r. and_then r (decode_node i)) [0..<k] (Inr (q0, s0)) = Inr (qk, sk)"
      "levels qk = levels q" "total_nodes qk = total_nodes q"
      "\<And>j. j < k \<Longrightarrow> same_fields (nodes qk j) (nodes q j)"
      "reads sk (concat (map (node_bits q) [k..<total_nodes q]) @ rest)"
    by auto
  from st(5) k have "reads sk (node_bits q k @
      (concat (map (node_bits q) [Suc k..<total_nodes q]) @ rest))"
    by (simp add: upt_conv_Cons)
  from decode_node_ok [OF t k st(2,3,4) this] st(1) show ?case by auto
qed

lemma decode_ok:
  assumes t: "tree_ok q" and lv: "levels q = unat lv"
    and r: "reads s (to_bits 8 lv @ body_bits q @ rest)"
  shows "\<exists>q'. decode s nodes0 = Inr q' \<and> levels q' = levels q \<and> total_nodes q' = total_nodes q \<and>
     (\<forall>j<total_nodes q. same_fields (nodes q' j) (nodes q j))"
proof -
  from reads_pull [OF r] obtain s1 where
    s1: "read_n_bits s 8 = Inr (s1, lv)" "reads s1 (body_bits q @ rest)"
    by auto
  define q0 where "q0 = create_empty_quadtree (unat lv) nodes0"
  have q0: "levels q0 = levels q" "total_nodes q0 = total_nodes q"
    using t lv by (simp_all add: q0_def tree_ok_def del: first_at.simps)
  from decode_loop [OF t q0 s1(2) le_refl] obtain qk sk where
    qk: "fold (\<lambda>i r. and_then r (decode_node i)) [0..<total_nodes q] (Inr (q0, s1)) = Inr (qk, sk)"
    "levels qk = levels q" "total_nodes qk = total_nodes q"
    "\<forall>j<total_nodes q. same_fields (nodes qk j) (nodes q j)"
    by blast
  have "decode s nodes0 =
      and_then (fold (\<lambda>i r. and_then r (decode_node i)) [0..<total_nodes q0] (Inr (q0, s1)))
        (\<lambda>(q, s). Inr q)"
    by (simp only: decode_def s1(1) and_then_Inr Let_def q0_def prod.case)
  then have "decode s nodes0 = Inr qk"
    by (simp only: q0(2) qk(1) and_then_Inr prod.case)
  with qk(2-4) show ?thesis by blast
qed

lemma encode_decode:
  assumes t: "tree_ok q" and lv: "levels q < 256" and sz: "total_nodes q * 2 \<le> 2147483647"
  shows "\<exists>s q'. encode q m = Inr s \<and> decode s nodes0 = Inr q' \<and>
     levels q' = levels q \<and> total_nodes q' = total_nodes q \<and>
     (\<forall>j<total_nodes q. same_fields (nodes q' j) (nodes q j))"
proof -
  from encode_stored [OF sz, of m] obtain s pad where
    s: "encode q m = Inr s" "capa s = 8" "start s = 0"
      "stored (mem s) 0 (to_bits 8 (of_nat (levels q)) @ body_bits q @ replicate pad False)"
    by blast
  have "rpos s = 0" using s(2,3) by (simp add: rpos_def)
  with s(2,4) have r: "reads s (to_bits 8 (of_nat (levels q)) @ body_bits q @ replicate pad False)"
    by (simp add: reads_def)
  have "levels q = unat (of_nat (levels q) :: u8)"
    using lv by (simp add: unat_of_nat)
  from decode_ok [OF t this r, of nodes0] s(1) show ?thesis by blast
qed

text \<open>
  The encoder emits at most 11 bits for a node and at most 8 for a leaf other than the
  root. With the 8 bits of the depth this fits the two bytes per node of the buffer
  as soon as the tree has more than one node.
\<close>

lemma length_node_bits: "length (node_bits q i) \<le> 11"
  by (simp add: node_bits_def tail_bits_def length_to_bits Let_def)

lemma length_leaf_bits: "is_leaf q i \<Longrightarrow> i \<noteq> 0 \<Longrightarrow> length (node_bits q i) \<le> 8"
  by (simp add: node_bits_def length_to_bits Let_def)

lemma length_body_bits:
  assumes t: "total_nodes q = first_at (Suc (levels q))" and n: "0 < levels q"
  shows "length (body_bits q) \<le> 11 * first_at (levels q) + 8 * 4 ^ levels q"
proof -
  define F where "F = first_at (levels q)"
  have F: "0 < F" using n unfolding F_def by (cases "levels q") simp_all
  have "length (concat (map (node_bits q) [0..<k])) \<le> 11 * min k F + 8 * (k - F)" for k
  proof (induction k)
    case 0
    show ?case by simp
  next
    case (Suc k)
    show ?case
    proof (cases "k < F")
      case True
      with Suc length_node_bits [of q k] show ?thesis by (simp add: min_def)
    next
      case False
      then have "is_leaf q k" "k \<noteq> 0" using F by (simp_all add: is_leaf_iff [OF t] F_def)
      moreover from False have "min k F = F" "min (Suc k) F = F" "Suc k - F = Suc (k - F)"
        by simp_all
      ultimately show ?thesis using length_leaf_bits [of q k] Suc by simp
    qed
  qed
  from this [of "total_nodes q"] show ?thesis
    unfolding body_bits_def t first_at_Suc F_def [symmetric] by simp
qed

lemma encode_inside:
  assumes t: "total_nodes q = first_at (Suc (levels q))" and n: "0 < levels q"
    and sz: "total_nodes q * 2 \<le> 2147483647"
  shows "\<exists>s. encode q m = Inr s \<and> allocated s = total_nodes q * 2 \<and> inside s"
proof -
  from encode_stored [OF sz, of m] obtain s pad where
    s: "encode q m = Inr s" "capa s = 8" "start s = 0" "pad < 8"
      "allocated s = total_nodes q * 2"
      "8 * ptr s = length (to_bits 8 (of_nat (levels q)) @ body_bits q @ replicate pad False)"
    by blast
  define F L where "F = first_at (levels q)" and "L = (4::nat) ^ levels q"
  have F: "0 < F" using n unfolding F_def by (cases "levels q") simp_all
  have L: "4 \<le> L" using n unfolding L_def by (cases "levels q") simp_all
  have b: "length (body_bits q) \<le> 11 * F + 8 * L"
    using length_body_bits [OF t n] by (simp add: F_def L_def)
  have a: "allocated s = 2 * F + 2 * L"
    unfolding s(5) t first_at_Suc by (simp add: F_def L_def)
  from s(6) have "8 * ptr s = 8 + length (body_bits q) + pad" by (simp add: length_to_bits)
  with b s(4) F L have "8 * ptr s \<le> 16 * F + 16 * L" by linarith
  then have "8 * ptr s \<le> 8 * allocated s" unfolding a by simp
  with s(1,2,3,5) show ?thesis by (auto simp add: inside_def wpos_def rpos_def)
qed

lemma lvl_leaf_of: "lvl (leaf_of d i dx dy) = lvl i + d"
proof (induction d arbitrary: i dx dy)
  case 0
  show ?case by simp
next
  case (Suc d)
  show ?case
    unfolding leaf_of.simps Let_def
    by (simp only: Suc lvl_child if_distrib [of lvl] add_Suc add_Suc_right if_cancel split: if_splits)
qed

lemma offset_eq_iff:
  assumes "x < (w::nat)"
  shows "p = y * w + x \<longleftrightarrow> p mod w = x \<and> p div w = y"
proof
  assume p: "p = y * w + x"
  have "(x + y * w) mod w = x" "(x + y * w) div w = y" using assms by simp_all
  then show "p mod w = x \<and> p div w = y" unfolding p by (simp only: add.commute)
next
  assume "p mod w = x \<and> p div w = y"
  then have "p div w * w + p mod w = y * w + x" by simp
  then show "p = y * w + x" by simp
qed

lemma painted_Suc:
  assumes "x + 2 ^ Suc d \<le> w"
  shows "painted q w (4 * i + 4) d x (y + 2 ^ d)
          (painted q w (4 * i + 3) d (x + 2 ^ d) (y + 2 ^ d)
            (painted q w (4 * i + 2) d (x + 2 ^ d) y
              (painted q w (4 * i + 1) d x y old))) = painted q w i (Suc d) x y old"
proof
  fix p
  define a b P where "a = p mod w" and "b = p div w" and "P = (2::nat) ^ d"
  have P2: "(2::nat) ^ Suc d = P + P" by (simp add: P_def)
  have sub: "a - (x + P) = a - x - P" "b - (y + P) = b - y - P" by simp_all
  show "painted q w (4 * i + 4) d x (y + 2 ^ d)
          (painted q w (4 * i + 3) d (x + 2 ^ d) (y + 2 ^ d)
            (painted q w (4 * i + 2) d (x + 2 ^ d) y
              (painted q w (4 * i + 1) d x y old))) p = painted q w i (Suc d) x y old p"
    unfolding painted_def leaf_of.simps P2
    unfolding a_def [symmetric] b_def [symmetric] P_def [symmetric] sub
    by (auto simp add: not_less)
qed

lemma paint_rec_painted:
  assumes shape: "total_nodes q = first_at (Suc (levels q))"
  shows "lvl i + d = levels q \<Longrightarrow> x + 2 ^ d \<le> width img \<Longrightarrow>
     build_image_from_quadtree_rec q img i x y (2 ^ d) =
       img\<lparr>image := painted q (width img) i d x y (image img)\<rparr>"
proof (induction d arbitrary: i x y img)
  case 0
  then have "\<not> lvl i < levels q" by simp
  then have leaf: "is_leaf q i" by (simp add: is_leaf_iff [OF shape] lvl_less_iff)
  from 0 have x: "x < width img" by simp
  have "(image img)(y * width img + x := moyenne (nodes q i)) =
      painted q (width img) i 0 x y (image img)"
  proof
    fix p
    show "((image img)(y * width img + x := moyenne (nodes q i))) p =
      painted q (width img) i 0 x y (image img) p"
      using offset_eq_iff [OF x, of p y] by (auto simp add: painted_def)
  qed
  then show ?case
    by (subst build_image_from_quadtree_rec.simps) (simp add: leaf)
next
  case (Suc d)
  then have "lvl i < levels q" by simp
  then have nl: "\<not> is_leaf q i" by (simp add: is_leaf_iff [OF shape] lvl_less_iff)
  have half: "(2::nat) ^ Suc d div 2 = 2 ^ d" by simp
  have l: "lvl (4 * i + 1) + d = levels q" "lvl (4 * i + 2) + d = levels q"
    "lvl (4 * i + 3) + d = levels q" "lvl (4 * i + 4) + d = levels q"
    using Suc.prems(1) by (simp_all only: lvl_child add_Suc)
  have w: "x + 2 ^ d \<le> width img" "x + 2 ^ d + 2 ^ d \<le> width img"
    using Suc.prems(2) by simp_all
  define i1 where "i1 = img\<lparr>image := painted q (width img) (4 * i + 1) d x y (image img)\<rparr>"
  define i2 where "i2 = i1\<lparr>image := painted q (width img) (4 * i + 2) d (x + 2 ^ d) y (image i1)\<rparr>"
  define i3 where "i3 = i2\<lparr>image :=
      painted q (width img) (4 * i + 3) d (x + 2 ^ d) (y + 2 ^ d) (image i2)\<rparr>"
  have wd: "width i1 = width img" "width i2 = width img" "width i3 = width img"
    by (simp_all add: i1_def i2_def i3_def)
  have 1: "build_image_from_quadtree_rec q img (4 * i + 1) x y (2 ^ d) = i1"
    unfolding i1_def by (rule Suc.IH [OF l(1) w(1)])
  have 2: "build_image_from_quadtree_rec q i1 (4 * i + 2) (x + 2 ^ d) y (2 ^ d) = i2"
    unfolding i2_def using Suc.IH [OF l(2), of "x + 2 ^ d" i1 y] w(2) wd by simp
  have 3: "build_image_from_quadtree_rec q i2 (4 * i + 3) (x + 2 ^ d) (y + 2 ^ d) (2 ^ d) = i3"
    unfolding i3_def using Suc.IH [OF l(3), of "x + 2 ^ d" i2 "y + 2 ^ d"] w(2) wd by simp
  have 4: "build_image_from_quadtree_rec q i3 (4 * i + 4) x (y + 2 ^ d) (2 ^ d) =
      i3\<lparr>image := painted q (width img) (4 * i + 4) d x (y + 2 ^ d) (image i3)\<rparr>"
    using Suc.IH [OF l(4), of x i3 "y + 2 ^ d"] w(1) wd by simp
  have "build_image_from_quadtree_rec q img i x y (2 ^ Suc d) =
      i3\<lparr>image := painted q (width img) (4 * i + 4) d x (y + 2 ^ d) (image i3)\<rparr>"
    by (subst build_image_from_quadtree_rec.simps)
       (simp only: nl if_False Let_def half 1 2 3 4)
  also have "\<dots> = img\<lparr>image := painted q (width img) i (Suc d) x y (image img)\<rparr>"
    using painted_Suc [OF Suc.prems(2), of q i y "image img"]
    by (simp add: i1_def i2_def i3_def)
  finally show ?case .
qed

lemma leaf_of_less:
  "lvl i + d = n \<Longrightarrow> leaf_of d i dx dy < first_at (Suc n)"
  using lvl_leaf_of [of d i dx dy] by (simp add: lvl_less_iff [symmetric] del: first_at.simps)

lemma leaf_of_is_leaf:
  assumes "total_nodes q = first_at (Suc (levels q))"
  shows "is_leaf q (leaf_of (levels q) 0 dx dy)"
proof -
  have "\<not> lvl (leaf_of (levels q) 0 dx dy) < levels q" by (simp add: lvl_leaf_of)
  then show ?thesis by (simp add: is_leaf_iff [OF assms] lvl_less_iff)
qed

lemma paint_painted:
  assumes "total_nodes q = first_at (Suc (levels q))"
  shows "build_image_from_quadtree q pixels0 =
     \<lparr>width = 2 ^ levels q, image_size = 2 ^ levels q * 2 ^ levels q, max_val = 255,
      image = painted q (2 ^ levels q) 0 (levels q) 0 0 pixels0\<rparr>"
  unfolding build_image_from_quadtree_def Let_def allocate_image_def
  by (subst paint_rec_painted [OF assms]) simp_all

lemma paint_pixel:
  assumes "total_nodes q = first_at (Suc (levels q))" and "p < 2 ^ levels q * 2 ^ levels q"
  shows "image (build_image_from_quadtree q pixels0) p =
     moyenne (nodes q (leaf_of (levels q) 0 (p mod 2 ^ levels q) (p div 2 ^ levels q)))"
proof -
  have "p div 2 ^ levels q < 2 ^ levels q"
    using assms(2) by (simp add: less_mult_imp_div_less)
  then show ?thesis by (simp add: paint_painted [OF assms(1)] painted_def)
qed

section \<open>Properties of the painter\<close>

text \<open>
  C10. Take a quadtree that has the number of nodes \<^verbatim>\<open>create_empty_quadtree\<close> gives to a
  tree of its depth \<open>n\<close> (every tree the program handles is made by that function, the
  decoded ones too). The raster the painter returns has side \<open>2 ^ n\<close>, and each of its
  \<open>2 ^ n * 2 ^ n\<close> pixels holds the mean of a leaf of the tree, the one covering the pixel:
  no pixel keeps what the freshly allocated pixel array contained.
\<close>

theorem painter_writes_every_pixel:
  assumes "total_nodes q = total_nodes (create_empty_quadtree (levels q) ns)"
  shows "width (build_image_from_quadtree q pixels0) = 2 ^ levels q \<and>
     image_size (build_image_from_quadtree q pixels0) = 2 ^ levels q * 2 ^ levels q \<and>
     (\<forall>p<2 ^ levels q * 2 ^ levels q.
        is_leaf q (leaf_of (levels q) 0 (p mod 2 ^ levels q) (p div 2 ^ levels q)) \<and>
        image (build_image_from_quadtree q pixels0) p =
          moyenne (nodes q (leaf_of (levels q) 0 (p mod 2 ^ levels q) (p div 2 ^ levels q))))"
proof -
  from assms have s: "total_nodes q = first_at (Suc (levels q))"
    by (simp only: total_nodes_create)
  show ?thesis
    using paint_pixel [OF s] leaf_of_is_leaf [OF s]
    by (simp add: paint_painted [OF s])
qed

theorem painter_writes_every_pixel_witness:
  "map (image (build_image_from_quadtree sample_tree (\<lambda>_. 7))) [0, 1, 2, 3] = [10, 20, 40, 30]"
proof -
  have "total_nodes sample_tree =
      total_nodes (create_empty_quadtree (levels sample_tree) (nodes sample_tree))"
    by (simp add: sample_tree_def create_empty_quadtree_def)
  from painter_writes_every_pixel [OF this, of "\<lambda>_. 7"]
  have "\<forall>p<4. image (build_image_from_quadtree sample_tree (\<lambda>_. 7)) p =
      moyenne (nodes sample_tree (leaf_of (levels sample_tree) 0 (p mod 2) (p div 2)))"
    by (simp add: sample_tree_def)
  then have "\<And>p. p < 4 \<Longrightarrow> image (build_image_from_quadtree sample_tree (\<lambda>_. 7)) p =
      moyenne (nodes sample_tree (leaf_of 1 0 (p mod 2) (p div 2)))"
    by (simp add: sample_tree_def)
  from this [of 0] this [of 1] this [of 2] this [of 3] show ?thesis
    by (simp add: sample_tree_def)
qed

section \<open>Properties of the whole chain\<close>

lemma first_at_bound:
  assumes "n \<le> 14"
  shows "first_at (Suc n) * 2 \<le> 2147483647"
proof -
  from assms have "(4::nat) ^ Suc n \<le> 4 ^ 15" by (intro power_increasing) simp_all
  moreover have "3 * first_at (Suc n) + 1 = 4 ^ Suc n" by (rule first_at_pow)
  moreover have "(4::nat) ^ 15 = 1073741824" by simp
  ultimately show ?thesis by linarith
qed

text \<open>
  The chain on the rasters of side \<open>2 ^ n\<close> with \<open>1 \<le> n \<le> 14\<close>, where the buffer of
  \<^verbatim>\<open>encode\<close> is large enough and no \<^verbatim>\<open>int\<close> overflows. Whatever the freshly allocated
  arrays contain, the builder returns a tree, the encoder returns a stream for this
  tree without leaving its buffer, and the decoder returns a tree for this stream. The
  decoded tree has the depth and the number of nodes of the built tree, and the same
  mean, epsilon and uniform flag at every node (the variance is not part of the
  stream). The painter turns the decoded tree into a raster of the same width and the
  same pixels as the input.
\<close>

lemma lossless_chain:
  assumes "width img = 2 ^ n" and "0 < n" and "n \<le> 14"
  shows "\<exists>q s q'. build_quadtree_from_image img nodes0 = Some q \<and>
     encode q m = Inr s \<and> allocated s = total_nodes q * 2 \<and> inside s \<and>
     decode s nodes1 = Inr q' \<and>
     levels q' = levels q \<and> total_nodes q' = total_nodes q \<and>
     (\<forall>j<total_nodes q. same_fields (nodes q' j) (nodes q j)) \<and>
     width (build_image_from_quadtree q' pixels0) = width img \<and>
     (\<forall>p<width img * width img. image (build_image_from_quadtree q' pixels0) p = image img p)"
proof -
  from build_from_image [OF assms(1), of nodes0] obtain q where
    q: "build_quadtree_from_image img nodes0 = Some q" "levels q = n" "tree_ok q"
      "pix_ok (nodes q) img 0 n 0 0"
    by blast
  from q(2) assms(3) have lv: "levels q < 256" by simp
  from q(3) have t: "total_nodes q = first_at (Suc (levels q))" by (simp only: tree_ok_def)
  have sz: "total_nodes q * 2 \<le> 2147483647"
    unfolding t q(2) by (rule first_at_bound [OF assms(3)])
  from encode_decode [OF q(3) lv sz, of m nodes1] obtain s q' where
    r: "encode q m = Inr s" "decode s nodes1 = Inr q'" "levels q' = levels q"
      "total_nodes q' = total_nodes q"
      "\<forall>j<total_nodes q. same_fields (nodes q' j) (nodes q j)"
    by blast
  from encode_inside [OF t _ sz, of m] assms(2) q(2) r(1)
  have i: "allocated s = total_nodes q * 2" "inside s" by auto
  from r t have t': "total_nodes q' = first_at (Suc (levels q'))" by simp
  have n': "levels q' = n" using r(3) q(2) by simp
  have "image (build_image_from_quadtree q' pixels0) p = image img p" if "p < 2 ^ n * 2 ^ n" for p
  proof -
    define dx dy where "dx = p mod 2 ^ n" and "dy = p div 2 ^ n"
    have d: "dx < 2 ^ n" "dy < 2 ^ n"
      using that by (simp_all add: dx_def dy_def less_mult_imp_div_less)
    have p: "p = dy * 2 ^ n + dx" unfolding dx_def dy_def by (rule div_mult_mod_eq [symmetric])
    have "leaf_of n 0 dx dy < total_nodes q"
      unfolding t q(2) by (rule leaf_of_less) simp
    with r(5) have "moyenne (nodes q' (leaf_of n 0 dx dy)) = moyenne (nodes q (leaf_of n 0 dx dy))"
      by (simp add: same_fields_def)
    also from q(4) d have "\<dots> = image img p"
      by (simp add: pix_ok_def p assms(1))
    finally show ?thesis
      using paint_pixel [OF t', of p pixels0] that by (simp add: n' dx_def dy_def)
  qed
  moreover have "width (build_image_from_quadtree q' pixels0) = width img"
    by (simp add: paint_painted [OF t'] n' assms(1))
  ultimately show ?thesis using q(1) r i by (simp add: assms(1))
qed

lemma written_bytes_stored:
  assumes "stored (mem s) 0 bs" and "start s = 0" and "8 * ptr s = length bs"
  shows "written_bytes s = pack bs"
proof -
  have "mem s k = horner_sum of_bool 2 (rev (take 8 (drop (8 * k) bs)))" if k: "k < ptr s" for k
  proof (rule bit_eqI)
    fix j
    show "bit (mem s k) j \<longleftrightarrow> bit (horner_sum of_bool 2 (rev (take 8 (drop (8 * k) bs))) :: u8) j"
    proof (cases "j < 8")
      case True
      define p where "p = 8 * k + (7 - j)"
      define r where "r = 7 - j"
      have r: "r < 8" "7 - r = j" "j + r = 7" using True by (simp_all add: r_def)
      have pr: "p = 8 * k + r" by (simp add: p_def r_def)
      have p: "p < length bs" "p div 8 = k" "7 - p mod 8 = j"
        using r(1,2) k assms(3) [symmetric] unfolding pr by simp_all
      have l: "length (take 8 (drop (8 * k) bs)) = 8"
        using k assms(3) by simp
      from assms(1) p(1) have "bit_at (mem s) p = bs ! p" by (simp add: stored_def)
      then have "bit (mem s k) j = bs ! p" by (simp add: bit_at_def p)
      moreover have "rev (take 8 (drop (8 * k) bs)) ! j = bs ! p"
      proof -
        have "8 - Suc j = r" using True by (simp add: r_def)
        then have "rev (take 8 (drop (8 * k) bs)) ! j = take 8 (drop (8 * k) bs) ! r"
          using True l by (simp add: rev_nth)
        also have "\<dots> = bs ! p" using r(1) p(1) unfolding pr by simp
        finally show ?thesis .
      qed
      ultimately show ?thesis using True l by (simp add: bit_horner_sum_bit_word_iff)
    next
      case False
      then have "\<not> bit (mem s k) j" by (auto dest: bit_imp_le_length)
      with False show ?thesis by (simp add: bit_horner_sum_bit_word_iff)
    qed
  qed
  moreover have "length bs div 8 = ptr s" using assms(3) [symmetric] by simp
  ultimately show ?thesis by (simp add: written_bytes_def pack_def assms(2))
qed

lemma encode_bytes:
  assumes "total_nodes q * 2 \<le> 2147483647"
  shows "\<exists>s pad. encode q m = Inr s \<and> capa s = 8 \<and> start s = 0 \<and> pad < 8 \<and>
     allocated s = total_nodes q * 2 \<and>
     8 * ptr s = length (to_bits 8 (of_nat (levels q)) @ body_bits q @ replicate pad False) \<and>
     written_bytes s = pack (to_bits 8 (of_nat (levels q)) @ body_bits q @ replicate pad False)"
proof -
  from encode_stored [OF assms, of m] obtain s pad where
    s: "encode q m = Inr s" "capa s = 8" "start s = 0" "pad < 8"
      "allocated s = total_nodes q * 2"
      "8 * ptr s = length (to_bits 8 (of_nat (levels q)) @ body_bits q @ replicate pad False)"
      "stored (mem s) 0 (to_bits 8 (of_nat (levels q)) @ body_bits q @ replicate pad False)"
    by blast
  from written_bytes_stored [OF s(7,3,6)] s show ?thesis by blast
qed

lemma build_128: "build_quadtree_from_image (raster 1 [128]) junk_nodes = Some tree_128"
  by (simp add: build_eval tree_128_def junk_nodes_def signed_inf_def)

lemma bits_128:
  "to_bits 8 (of_nat (levels tree_128)) @ body_bits tree_128 =
     [False, False, False, False, False, False, False, False,
      True, False, False, False, False, False, False, False, False, False, True]"
  by (simp add: body_bits_def node_bits_def tail_bits_def to_bits_def tree_128_def upt_conv_Cons)

lemma read_file_stored:
  "\<exists>s. read_bitstream_from_file_Q1 buffer m = Inr s \<and> capa s = 8 \<and> start s = 0 \<and>
     ptr s = length buffer \<and> allocated s = length buffer \<and>
     stored (mem s) 0 (concat (map (to_bits 8) buffer))"
proof -
  have loop: "\<exists>s'. fold (\<lambda>b r. and_then r (\<lambda>stream. push_n_bits stream b 8)) bs (Inr s) = Inr s' \<and>
      start s' = start s \<and> wrote s' 0 (pre @ concat (map (to_bits 8) bs)) \<and>
      allocated s' = allocated s"
    if "wrote s 0 pre" for s pre bs
    using that
  proof (induction bs arbitrary: s pre)
    case Nil
    then show ?case by simp
  next
    case (Cons b bs)
    from wrote_push [OF Cons.prems, of b 8] obtain s1 where
      s1: "push_n_bits s b 8 = Inr s1" "start s1 = start s" "wrote s1 0 (pre @ to_bits 8 b)"
      by blast
    from Cons.IH [OF s1(3)] s1(1,2) allocated_push_n_bits [OF s1(1)] show ?case by simp
  qed
  have "wrote (initBitStream (length buffer) m) 0 []"
    by (simp add: wrote_def initBitStream_def wpos_def)
  from loop [OF this, of buffer] obtain s1 where
    s1: "fold (\<lambda>b r. and_then r (\<lambda>stream. push_n_bits stream b 8)) buffer
           (Inr (initBitStream (length buffer) m)) = Inr s1"
      "start s1 = 0" "wrote s1 0 (concat (map (to_bits 8) buffer))"
      "allocated s1 = length buffer"
    by (auto simp add: initBitStream_def)
  have len: "length (concat (map (to_bits 8) buffer)) = 8 * length buffer"
    by (induction buffer) (simp_all add: length_to_bits)
  from s1(3) have "capa s1 \<le> 8" "stored (mem s1) 0 (concat (map (to_bits 8) buffer))"
    "wpos s1 = 0 + length (concat (map (to_bits 8) buffer))"
    by (simp_all add: wrote_def)
  from finished [OF this] obtain s2 pad where
    s2: "finishBitStream s1 = Inr s2" "capa s2 = 8" "start s2 = start s1" "pad < 8"
      "8 * ptr s2 = 0 + length (concat (map (to_bits 8) buffer) @ replicate pad False)"
      "stored (mem s2) 0 (concat (map (to_bits 8) buffer) @ replicate pad False)"
    by blast
  from s2(5) len have "8 * ptr s2 = 8 * length buffer + pad" by simp
  with s2(4) have "pad = 0" by presburger
  with s1(1,2,4) s2 len allocated_finishBitStream [OF s2(1)] show ?thesis
    by (simp add: read_bitstream_from_file_Q1_def)
qed

lemma read_u_Inr: "\<exists>s' n'. read_u s n = Inr (s', n')"
  by (simp add: read_u_def read_n_bits_Inr)

lemma read_node_Inr: "\<exists>s' n'. read_node s n = Inr (s', n')"
  using read_u_Inr by (simp add: read_node_def read_n_bits_Inr)

lemma read_leaf_Inr: "\<exists>s' n'. read_leaf s n = Inr (s', n')"
  by (simp add: read_leaf_def read_n_bits_Inr)

lemma interpolation_4th_child_Inr: "\<exists>s' n'. interpolation_4th_child s q n pn i = Inr (s', n')"
  using read_u_Inr by (simp add: interpolation_4th_child_def read_n_bits_Inr Let_def)

lemma decode_node_Inr:
  "\<exists>q' s'. decode_node i (q, s) = Inr (q', s') \<and> levels q' = levels q \<and>
     total_nodes q' = total_nodes q"
proof -
  have store: "\<exists>q' s'. and_then r (\<lambda>(s, node). Inr (q\<lparr>nodes := (nodes q)(i := node)\<rparr>, s)) =
      Inr (q', s') \<and> levels q' = levels q \<and> total_nodes q' = total_nodes q"
    if "\<exists>s' n'. r = Inr (s', n')" for r
    using that by auto
  note r = store [OF read_node_Inr] store [OF read_leaf_Inr] store [OF interpolation_4th_child_Inr]
  show ?thesis
    unfolding decode_node_def Let_def prod.case
    by (simp only: r if_split [of "\<lambda>x. \<exists>q' s'. x = Inr (q', s') \<and> levels q' = levels q \<and>
      total_nodes q' = total_nodes q"]) simp
qed

lemma decode_fold_Inr:
  "\<exists>q' s'. fold (\<lambda>i r. and_then r (decode_node i)) xs (Inr (q, s)) = Inr (q', s') \<and>
     levels q' = levels q \<and> total_nodes q' = total_nodes q"
proof (induction xs arbitrary: q s)
  case Nil
  show ?case by simp
next
  case (Cons i xs)
  from decode_node_Inr [of i q s] obtain q1 s1 where
    "decode_node i (q, s) = Inr (q1, s1)" "levels q1 = levels q" "total_nodes q1 = total_nodes q"
    by blast
  with Cons [of q1 s1] show ?case by simp
qed

lemma decode_returns:
  "\<exists>q. decode s nodes0 = Inr q \<and> levels q = unat (fst (snd (pullbits s 8))) \<and>
     total_nodes q = first_at (Suc (levels q))"
proof -
  define lv where "lv = fst (snd (pullbits s 8))"
  define q0 where "q0 = create_empty_quadtree (unat lv) nodes0"
  from decode_fold_Inr [of "[0..<total_nodes q0]" q0 "fst (pullbits s 8)"] obtain q' s' where
    q': "fold (\<lambda>i r. and_then r (decode_node i)) [0..<total_nodes q0]
          (Inr (q0, fst (pullbits s 8))) = Inr (q', s')"
      "levels q' = levels q0" "total_nodes q' = total_nodes q0"
    by blast
  have "decode s nodes0 =
      and_then (fold (\<lambda>i r. and_then r (decode_node i)) [0..<total_nodes q0]
        (Inr (q0, fst (pullbits s 8)))) (\<lambda>(q, s). Inr q)"
    by (simp only: decode_def read_n_bits_Inr and_then_Inr Let_def q0_def lv_def prod.case)
  then have "decode s nodes0 = Inr q'"
    by (simp only: q'(1) and_then_Inr prod.case)
  moreover have "levels q' = unat lv" "total_nodes q' = first_at (Suc (unat lv))"
    using q'(2,3) by (simp_all add: q0_def del: first_at.simps)
  ultimately show ?thesis by (simp add: lv_def del: first_at.simps)
qed

lemma tree_ok_128: "tree_ok tree_128"
proof -
  have "width (raster 1 [128]) = 2 ^ 0" by (simp add: raster_def)
  from build_from_image [OF this, of junk_nodes] obtain q where
    "build_quadtree_from_image (raster 1 [128]) junk_nodes = Some q" "tree_ok q"
    by blast
  then show ?thesis by (simp only: build_128 option.inject)
qed

lemma bytes_128:
  "\<exists>s. encode tree_128 zero_mem = Inr s \<and> capa s = 8 \<and> start s = 0 \<and> ptr s = 3 \<and>
     allocated s = 2 \<and> written_bytes s = [0, 128, 32]"
proof -
  have "total_nodes tree_128 * 2 \<le> 2147483647" by (simp add: tree_128_def)
  from encode_bytes [OF this, of zero_mem] obtain s pad where
    s: "encode tree_128 zero_mem = Inr s" "capa s = 8" "start s = 0" "pad < 8"
      "allocated s = total_nodes tree_128 * 2"
      "8 * ptr s = length ((to_bits 8 (of_nat (levels tree_128)) @ body_bits tree_128) @
         replicate pad False)"
      "written_bytes s = pack ((to_bits 8 (of_nat (levels tree_128)) @ body_bits tree_128) @
         replicate pad False)"
    by (auto simp only: append_assoc)
  from s(6) have "8 * ptr s = 19 + pad" by (simp add: bits_128)
  with s(4) have p: "pad = 5" "ptr s = 3" by presburger+
  have "replicate 5 False = [False, False, False, False, False]"
    by (simp add: eval_nat_numeral)
  with s(7) have "written_bytes s = [0, 128, 32]"
    by (simp add: bits_128 p pack_def upt_conv_Cons)
  moreover from s(5) have "allocated s = 2" by (simp add: tree_128_def)
  ultimately show ?thesis using s(1,2,3) p(2) by simp
qed

lemma decode_128:
  "\<exists>s q'. read_bitstream_from_file_Q1 [0, 128, 32] zero_mem = Inr s \<and> allocated s = 3 \<and>
     decode s junk_nodes = Inr q' \<and> levels q' = 0 \<and> total_nodes q' = 1 \<and>
     moyenne (nodes q' 0) = 128"
proof -
  from read_file_stored [of "[0, 128, 32]" zero_mem] obtain s where
    s: "read_bitstream_from_file_Q1 [0, 128, 32] zero_mem = Inr s" "capa s = 8" "start s = 0"
      "allocated s = 3" "stored (mem s) 0 (concat (map (to_bits 8) [0, 128, 32]))"
    by auto
  have "concat (map (to_bits 8) [0, 128, 32]) =
      (to_bits 8 (of_nat (levels tree_128)) @ body_bits tree_128) @
        [False, False, False, False, False]"
    unfolding bits_128 by (simp add: to_bits_def upt_conv_Cons)
  with s(2,3,5) have r: "reads s (to_bits 8 0 @ body_bits tree_128 @
      [False, False, False, False, False])"
    by (simp add: reads_def rpos_def tree_128_def)
  have "levels tree_128 = unat (0 :: u8)" by (simp add: tree_128_def)
  from decode_ok [OF tree_ok_128 this r, of junk_nodes] obtain q' where
    q': "decode s junk_nodes = Inr q'" "levels q' = levels tree_128"
      "total_nodes q' = total_nodes tree_128"
      "\<forall>j<total_nodes tree_128. same_fields (nodes q' j) (nodes tree_128 j)"
    by blast
  from q'(4) have "moyenne (nodes q' 0) = 128" by (simp add: tree_128_def same_fields_def)
  with s(1,4) q'(1,2,3) show ?thesis by (simp add: tree_128_def)
qed

text \<open>
  C1 fails on the rasters of one pixel. For the raster \<open>[128]\<close> the builder returns a tree
  of one node, so \<^verbatim>\<open>encode\<close> allocates \<open>1 * 2 = 2\<close> bytes. It then pushes the 8 bits of
  the depth and, for the root, the 8 bits of the mean, the 2 bits of epsilon and the
  uniform bit: 19 bits. The third byte, \<open>32\<close>, is written at offset 2, outside the block,
  over whatever lies after it (here a zero). The two bytes per node of the buffer do not
  count the byte of the depth, which is only missing for this tree; \<open>lossless_chain\<close>
  covers the sides from 2 to \<open>2 ^ 14\<close>.
\<close>

theorem encode_1x1_leaves_its_buffer:
  "build_quadtree_from_image (raster 1 [128]) junk_nodes = Some tree_128 \<and>
   total_nodes tree_128 * 2 = 2 \<and>
   (\<exists>s. encode tree_128 zero_mem = Inr s \<and> allocated s = 2 \<and> ptr s = 3 \<and>
      zero_mem 2 = 0 \<and> mem s 2 = 32 \<and> \<not> inside s)"
proof -
  from bytes_128 obtain s where
    s: "encode tree_128 zero_mem = Inr s" "capa s = 8" "start s = 0" "ptr s = 3"
      "allocated s = 2" "written_bytes s = [0, 128, 32]"
    by blast
  from s(6) have "map (mem s) [0..<3] ! 2 = [0, 128, 32 :: u8] ! 2"
    by (simp only: written_bytes_def s(3,4))
  then have "mem s 2 = 32" by (simp add: numeral_2_eq_2)
  moreover have "\<not> inside s" by (simp add: inside_def wpos_def s)
  ultimately show ?thesis using s(1,4,5) build_128
    by (auto simp add: tree_128_def zero_mem_def)
qed

text \<open>
  C6, as amended. The root is always written as a node, also when it is a leaf: after
  the byte of the depth come the 8 bits \<open>10000000\<close> of the mean, the 2 bits \<open>00\<close> of
  epsilon and the uniform bit \<open>1\<close>. \<^verbatim>\<open>finishBitStream\<close> pads these 19 bits to the three
  bytes \<open>00 80 20\<close> (the third one lies beyond the two bytes \<^verbatim>\<open>encode\<close> allocates for this
  tree). A file holding these three bytes is read into a stream of three bytes, decoded
  into a tree of one node and painted into the raster \<open>[128]\<close> of side 1.
\<close>

theorem encode_1x1_three_bytes:
  "build_quadtree_from_image (raster 1 [128]) junk_nodes = Some tree_128 \<and>
   (\<exists>s. encode tree_128 zero_mem = Inr s \<and> allocated s = 2 \<and>
      written_bytes s = [0, 128, 32]) \<and>
   (\<exists>s' q'. read_bitstream_from_file_Q1 [0, 128, 32] zero_mem = Inr s' \<and> allocated s' = 3 \<and>
      decode s' junk_nodes = Inr q' \<and> total_nodes q' = 1 \<and>
      width (build_image_from_quadtree q' zero_mem) = 1 \<and>
      image_size (build_image_from_quadtree q' zero_mem) = 1 \<and>
      image (build_image_from_quadtree q' zero_mem) 0 = 128)"
proof -
  from decode_128 obtain s' q' where
    d: "read_bitstream_from_file_Q1 [0, 128, 32] zero_mem = Inr s'" "allocated s' = 3"
      "decode s' junk_nodes = Inr q'" "levels q' = 0" "total_nodes q' = 1"
      "moyenne (nodes q' 0) = 128"
    by blast
  from d(4,5) have t: "total_nodes q' = first_at (Suc (levels q'))" by simp
  have "image (build_image_from_quadtree q' zero_mem) 0 = 128"
    using paint_pixel [OF t, of 0 zero_mem] d(4,6) by simp
  moreover have "width (build_image_from_quadtree q' zero_mem) = 1"
    "image_size (build_image_from_quadtree q' zero_mem) = 1"
    by (simp_all add: paint_painted [OF t] d(4))
  ultimately show ?thesis using build_128 bytes_128 d(1,2,3,5) by blast
qed

text \<open>
  C6 as stated fails: the encoding of the tree built from the raster \<open>[128]\<close> has three
  bytes, not two.
\<close>

theorem encode_1x1_counterexample:
  "build_quadtree_from_image (raster 1 [128]) junk_nodes = Some tree_128 \<and>
   map_sum id written_bytes (encode tree_128 zero_mem) = Inr [0, 128, 32] \<and>
   map_sum id (length \<circ> written_bytes) (encode tree_128 zero_mem) = Inr 3"
proof -
  from bytes_128 obtain s where
    "encode tree_128 zero_mem = Inr s" "written_bytes s = [0, 128, 32]"
    by blast
  then show ?thesis using build_128 by simp
qed

section \<open>Properties of the reader\<close>

text \<open>
  C5 fails: no read ends with \<open>Underflow\<close>. \<^verbatim>\<open>pullbits\<close> counts the rounds of its loop and
  returns \<^verbatim>\<open>nbit\<close> always, so the test of \<^verbatim>\<open>read_n_bits\<close> never fires. A file whose
  data is the single byte \<open>01\<close> is read into a stream of one byte; the first pull of 8
  bits returns the depth 1 and leaves no unread bit, the next pull of 8 bits returns
  all the same, and the decoder returns a tree of depth 1 and 5 nodes whose fields
  come from the memory after the block.
\<close>

theorem decode_past_the_end:
  "\<exists>s s1 s2 d q. read_bitstream_from_file_Q1 [1] zero_mem = Inr s \<and>
     allocated s = 1 \<and> ptr s = 1 \<and>
     read_n_bits s 8 = Inr (s1, 1) \<and> rpos s1 = 8 * allocated s1 \<and>
     read_n_bits s1 8 = Inr (s2, d) \<and> \<not> inside s2 \<and>
     decode s junk_nodes = Inr q \<and> levels q = 1 \<and> total_nodes q = 5"
proof -
  from read_file_stored [of "[1]" zero_mem] obtain s where
    s: "read_bitstream_from_file_Q1 [1] zero_mem = Inr s" "capa s = 8" "start s = 0"
      "ptr s = 1" "allocated s = 1" "stored (mem s) 0 (to_bits 8 1 @ [])"
    by auto
  from s(2,3) have r0: "rpos s = 0" by (simp add: rpos_def)
  from pulled [of s 8 1 "[]"] s(2,6) r0 obtain s1 where
    s1: "read_n_bits s 8 = Inr (s1, 1)" "capa s1 \<le> 8" "rpos s1 = 8"
    by auto
  have a1: "allocated s1 = 1" using allocated_read_n_bits [OF s1(1)] s(5) by simp
  obtain s2 d where s2: "read_n_bits s1 8 = Inr (s2, d)"
    by (simp add: read_n_bits_Inr)
  have "rpos s2 = rpos s1 + 8"
  proof -
    obtain c where f: "fold (pullbits_step 8) [0..<8] (s1, 0, 0) = (s2, d, c)"
      using s2 by (cases "fold (pullbits_step 8) [0..<8] (s1, 0, 0)")
        (auto simp add: read_n_bits_def pullbits_def split: if_splits)
    from pullbits_fold [OF s1(2) le_refl le_refl f] show ?thesis by simp
  qed
  with s1(3) have "\<not> inside s2"
    using allocated_read_n_bits [OF s2] a1 by (simp add: inside_def)
  moreover from decode_returns [of s junk_nodes] obtain q where
    "decode s junk_nodes = Inr q" "levels q = unat (fst (snd (pullbits s 8)))"
    "total_nodes q = first_at (Suc (levels q))"
    by blast
  moreover have "fst (snd (pullbits s 8)) = 1"
    using s1(1) by (simp add: read_n_bits_Inr)
  ultimately show ?thesis using s(1,4,5) s1(1,3) a1 s2 by auto
qed

lemma filtered_node_refl [simp]: "filtered_node a a"
  by (simp add: filtered_node_def)

lemma filtered_node_trans:
  "filtered_node a b \<Longrightarrow> filtered_node b c \<Longrightarrow> filtered_node a c"
  by (auto simp add: filtered_node_def)

lemma filtered_refl [simp]: "filtered q q"
  by (simp add: filtered_def)

lemma filtered_trans: "filtered a b \<Longrightarrow> filtered b c \<Longrightarrow> filtered a c"
  unfolding filtered_def by (metis filtered_node_trans)

lemma filtered_uniform: "filtered q q' \<Longrightarrow> u (nodes q j) \<noteq> 0 \<Longrightarrow> u (nodes q' j) \<noteq> 0"
  unfolding filtered_def filtered_node_def by metis

lemma settled_cong:
  "(\<And>j. below i d j \<Longrightarrow> ns' j = ns j) \<Longrightarrow> settled ns' sigma alpha i d = settled ns sigma alpha i d"
proof (induction d arbitrary: i sigma)
  case 0
  then show ?case by simp
next
  case (Suc d)
  have self: "ns' i = ns i" by (rule Suc.prems) simp
  have kid: "ns' (4 * i + k) = ns (4 * i + k)" if "1 \<le> k" "k \<le> 4" for k
    by (rule Suc.prems, rule below_child [OF below_self [of _ d] refl that])
  have sub: "settled ns' s alpha (4 * i + k) d = settled ns s alpha (4 * i + k) d"
    if "1 \<le> k" "k \<le> 4" for k s
    by (rule Suc.IH, rule Suc.prems, rule below_child [OF _ refl that])
  show ?case
    unfolding settled.simps self
    using kid [of 1] kid [of 2] kid [of 3] kid [of 4]
      sub [of 1] sub [of 2] sub [of 3] sub [of 4]
    by simp
qed

text \<open>On a settled subtree the filter returns the flag of the node and changes nothing.\<close>

lemma filtrage_settled:
  "settled (nodes q) sigma alpha i d \<Longrightarrow>
     filtrage q i sigma alpha = Some (flag (nodes q i), q)"
proof (induction d arbitrary: i sigma)
  case 0
  then show ?case by (subst filtrage.simps) (simp add: flag_def)
next
  case (Suc d)
  show ?case
  proof (cases "u (nodes q i) \<noteq> 0")
    case True
    then show ?thesis by (subst filtrage.simps) (simp add: flag_def)
  next
    case False
    then have uz: "u (nodes q i) = 0" by simp
    from Suc.prems uz have
      st: "settled (nodes q) (fmul sigma alpha) alpha (4 * i + 1) d"
        "settled (nodes q) (fmul sigma alpha) alpha (4 * i + 2) d"
        "settled (nodes q) (fmul sigma alpha) alpha (4 * i + 3) d"
        "settled (nodes q) (fmul sigma alpha) alpha (4 * i + 4) d"
      and no: "u (nodes q (4 * i + 1)) = 0 \<or> u (nodes q (4 * i + 2)) = 0 \<or>
        u (nodes q (4 * i + 3)) = 0 \<or> u (nodes q (4 * i + 4)) = 0 \<or>
        fgt (v (nodes q i)) sigma"
      by simp_all
    note c = st [THEN Suc.IH]
    define s where "s = flag (nodes q (4 * i + 1)) + flag (nodes q (4 * i + 2)) +
      flag (nodes q (4 * i + 3)) + flag (nodes q (4 * i + 4))"
    have "filtrage q i sigma alpha =
        (if s < 4 \<or> fgt (v (nodes q i)) sigma then Some (0, q)
         else Some (1, q\<lparr>nodes := (nodes q)(i := (nodes q i)\<lparr>epsilon := 0, u := 1\<rparr>)\<rparr>))"
      by (subst filtrage.simps)
         (simp only: uz simp_thms if_False c Option.bind.simps prod.case Let_def s_def)
    moreover from no have "s < 4 \<or> fgt (v (nodes q i)) sigma"
      by (auto simp add: s_def flag_def)
    ultimately show ?thesis using uz by (simp add: flag_def)
  qed
qed

text \<open>
  The filter on a tree whose nodes of level \<open>n\<close> are all uniform, started at a node \<open>i\<close>
  that is \<open>d\<close> levels above them: it returns, with the flag of the node as result; the
  tree it leaves is \<open>filtered\<close> from the one it was given, unchanged outside the subtree
  of \<open>i\<close>, and settled in that subtree.
\<close>

lemma filtrage_first:
  assumes "\<forall>j. lvl j = n \<longrightarrow> u (nodes q j) \<noteq> 0" and "lvl i + d = n"
  shows "\<exists>q'. filtrage q i sigma alpha = Some (flag (nodes q' i), q') \<and> filtered q q' \<and>
     (\<forall>j. \<not> below i d j \<longrightarrow> nodes q' j = nodes q j) \<and> settled (nodes q') sigma alpha i d"
  using assms
proof (induction d arbitrary: i q sigma)
  case 0
  then have "u (nodes q i) \<noteq> 0" by simp
  then have "filtrage q i sigma alpha = Some (flag (nodes q i), q)"
    by (subst filtrage.simps) (simp add: flag_def)
  with \<open>u (nodes q i) \<noteq> 0\<close> show ?case by (intro exI [of _ q]) simp
next
  case (Suc d)
  show ?case
  proof (cases "u (nodes q i) \<noteq> 0")
    case True
    then have "filtrage q i sigma alpha = Some (flag (nodes q i), q)"
      by (subst filtrage.simps) (simp add: flag_def)
    with True show ?thesis by (intro exI [of _ q]) simp
  next
    case False
    then have uz: "u (nodes q i) = 0" by simp
    have l: "lvl (4 * i + 1) + d = n" "lvl (4 * i + 2) + d = n"
      "lvl (4 * i + 3) + d = n" "lvl (4 * i + 4) + d = n"
      using Suc.prems(2) by (simp_all only: lvl_child add_Suc add_Suc_right)
    define sg where "sg = fmul sigma alpha"
    from Suc.IH [OF Suc.prems(1) l(1), of sg] obtain q1 where
      q1: "filtrage q (4 * i + 1) sg alpha = Some (flag (nodes q1 (4 * i + 1)), q1)"
        "filtered q q1" "\<And>j. \<not> below (4 * i + 1) d j \<Longrightarrow> nodes q1 j = nodes q j"
        "settled (nodes q1) sg alpha (4 * i + 1) d"
      by blast
    have u1: "\<forall>j. lvl j = n \<longrightarrow> u (nodes q1 j) \<noteq> 0"
      using Suc.prems(1) filtered_uniform [OF q1(2)] by blast
    from Suc.IH [OF u1 l(2), of sg] obtain q2 where
      q2: "filtrage q1 (4 * i + 2) sg alpha = Some (flag (nodes q2 (4 * i + 2)), q2)"
        "filtered q1 q2" "\<And>j. \<not> below (4 * i + 2) d j \<Longrightarrow> nodes q2 j = nodes q1 j"
        "settled (nodes q2) sg alpha (4 * i + 2) d"
      by blast
    have u2: "\<forall>j. lvl j = n \<longrightarrow> u (nodes q2 j) \<noteq> 0"
      using u1 filtered_uniform [OF q2(2)] by blast
    from Suc.IH [OF u2 l(3), of sg] obtain q3 where
      q3: "filtrage q2 (4 * i + 3) sg alpha = Some (flag (nodes q3 (4 * i + 3)), q3)"
        "filtered q2 q3" "\<And>j. \<not> below (4 * i + 3) d j \<Longrightarrow> nodes q3 j = nodes q2 j"
        "settled (nodes q3) sg alpha (4 * i + 3) d"
      by blast
    have u3: "\<forall>j. lvl j = n \<longrightarrow> u (nodes q3 j) \<noteq> 0"
      using u2 filtered_uniform [OF q3(2)] by blast
    from Suc.IH [OF u3 l(4), of sg] obtain q4 where
      q4: "filtrage q3 (4 * i + 4) sg alpha = Some (flag (nodes q4 (4 * i + 4)), q4)"
        "filtered q3 q4" "\<And>j. \<not> below (4 * i + 4) d j \<Longrightarrow> nodes q4 j = nodes q3 j"
        "settled (nodes q4) sg alpha (4 * i + 4) d"
      by blast
    have f4: "filtered q q4"
      using q1(2) q2(2) q3(2) q4(2) by (blast intro: filtered_trans)
    have out: "\<not> below (4 * i + 1) d i" "\<not> below (4 * i + 2) d i"
      "\<not> below (4 * i + 3) d i" "\<not> below (4 * i + 4) d i"
      by (auto dest: below_ge)
    have root: "nodes q4 i = nodes q i"
      by (simp only: q4(3) [OF out(4)] q3(3) [OF out(3)] q2(3) [OF out(2)] q1(3) [OF out(1)])
    define s where "s = flag (nodes q1 (4 * i + 1)) + flag (nodes q2 (4 * i + 2)) +
      flag (nodes q3 (4 * i + 3)) + flag (nodes q4 (4 * i + 4))"
    define q' where "q' = (if s < 4 \<or> fgt (v (nodes q4 i)) sigma then q4
      else q4\<lparr>nodes := (nodes q4)(i := (nodes q4 i)\<lparr>epsilon := 0, u := 1\<rparr>)\<rparr>)"
    define r :: nat where "r = (if s < 4 \<or> fgt (v (nodes q4 i)) sigma then 0 else 1)"
    have res: "filtrage q i sigma alpha = Some (r, q')"
      by (subst filtrage.simps)
         (simp only: uz simp_thms if_False q1(1) q2(1) q3(1) q4(1) Option.bind.simps prod.case
            Let_def s_def [symmetric] sg_def [symmetric] q'_def r_def if_distrib [of Some]
            if_distrib [of "Pair _"] if_distrib [of "\<lambda>x. Pair x _"], simp)
    have last: "nodes q' j = nodes q4 j" if "j \<noteq> i" for j
      using that by (simp add: q'_def)
    have c1: "nodes q' j = nodes q1 j" if "below (4 * i + 1) d j" for j
      using siblings(1) [OF that] by (simp add: last q4(3) q3(3) q2(3))
    have c2: "nodes q' j = nodes q2 j" if "below (4 * i + 2) d j" for j
      using siblings(2) [OF that] by (simp add: last q4(3) q3(3))
    have c3: "nodes q' j = nodes q3 j" if "below (4 * i + 3) d j" for j
      using siblings(3) [OF that] by (simp add: last q4(3))
    have c4: "nodes q' j = nodes q4 j" if "below (4 * i + 4) d j" for j
      using siblings(4) [OF that] by (simp add: last)
    have st: "settled (nodes q') sg alpha (4 * i + 1) d" "settled (nodes q') sg alpha (4 * i + 2) d"
      "settled (nodes q') sg alpha (4 * i + 3) d" "settled (nodes q') sg alpha (4 * i + 4) d"
      using q1(4) q2(4) q3(4) q4(4)
        settled_cong [of "4 * i + 1" d "nodes q'" "nodes q1", OF c1]
        settled_cong [of "4 * i + 2" d "nodes q'" "nodes q2", OF c2]
        settled_cong [of "4 * i + 3" d "nodes q'" "nodes q3", OF c3]
        settled_cong [of "4 * i + 4" d "nodes q'" "nodes q4", OF c4]
      by simp_all
    have kids: "nodes q' (4 * i + 1) = nodes q1 (4 * i + 1)"
      "nodes q' (4 * i + 2) = nodes q2 (4 * i + 2)"
      "nodes q' (4 * i + 3) = nodes q3 (4 * i + 3)"
      "nodes q' (4 * i + 4) = nodes q4 (4 * i + 4)"
      by (rule c1 c2 c3 c4, rule below_self)+
    have s': "s = flag (nodes q' (4 * i + 1)) + flag (nodes q' (4 * i + 2)) +
      flag (nodes q' (4 * i + 3)) + flag (nodes q' (4 * i + 4))"
      by (simp only: s_def kids)
    have fl: "r = flag (nodes q' i)"
      using uz root by (simp add: r_def q'_def flag_def)
    have "filtered q4 q'"
      using uz root by (simp add: filtered_def q'_def filtered_node_def)
    with f4 have "filtered q q'" by (rule filtered_trans)
    moreover have "nodes q' j = nodes q j" if "\<not> below i (Suc d) j" for j
    proof -
      have "j \<noteq> i" using that by auto
      moreover have "\<not> below (4 * i + 1) d j" "\<not> below (4 * i + 2) d j"
        "\<not> below (4 * i + 3) d j" "\<not> below (4 * i + 4) d j"
        using that below_children [of i d j] by blast+
      ultimately show ?thesis by (simp add: last q4(3) q3(3) q2(3) q1(3))
    qed
    moreover have "settled (nodes q') sigma alpha i (Suc d)"
    proof (cases "s < 4 \<or> fgt (v (nodes q4 i)) sigma")
      case True
      then have "q' = q4" by (simp add: q'_def)
      from True have "u (nodes q' (4 * i + 1)) = 0 \<or> u (nodes q' (4 * i + 2)) = 0 \<or>
          u (nodes q' (4 * i + 3)) = 0 \<or> u (nodes q' (4 * i + 4)) = 0 \<or>
          fgt (v (nodes q' i)) sigma"
        unfolding s' \<open>q' = q4\<close> by (auto simp add: flag_def split: if_splits)
      with st show ?thesis by (simp add: sg_def)
    next
      case False
      then show ?thesis by (simp add: q'_def)
    qed
    ultimately show ?thesis using res fl by blast
  qed
qed

lemma tree_leaves_uniform:
  assumes "tree_ok q"
  shows "\<forall>j. lvl j = levels q \<longrightarrow> u (nodes q j) \<noteq> 0"
proof (intro allI impI)
  fix j assume "lvl j = levels q"
  then have "\<not> lvl j < levels q" "lvl j < Suc (levels q)" by simp_all
  then have "first_at (levels q) \<le> j \<and> j < first_at (Suc (levels q))"
    by (simp add: lvl_less_iff del: first_at.simps)
  with assms have "built (nodes q) j 0" by (simp only: tree_ok_def)
  then show "u (nodes q j) \<noteq> 0" by simp
qed

lemma main_filtrage_first:
  assumes "tree_ok q"
  shows "\<exists>q'. main_filtrage q alpha = Some q' \<and> filtered q q' \<and>
     main_filtrage q' alpha = Some q'"
proof (cases "alpha = Fin 0")
  case True
  then show ?thesis by (simp add: main_filtrage_def)
next
  case False
  from filtrage_first [OF tree_leaves_uniform [OF assms], of 0 "levels q"
      "fdiv (medvar q) (maxvar q)" alpha]
  obtain q' where
    f: "filtrage q 0 (fdiv (medvar q) (maxvar q)) alpha = Some (flag (nodes q' 0), q')"
      "filtered q q'" "settled (nodes q') (fdiv (medvar q) (maxvar q)) alpha 0 (levels q)"
    by auto
  from f(2) have "medvar q' = medvar q" "maxvar q' = maxvar q" by (simp_all add: filtered_def)
  with filtrage_settled [OF f(3)] f(1,2) False show ?thesis
    by (simp add: main_filtrage_def)
qed

section \<open>Properties of the filter\<close>

text \<open>
  C9. On the tree built from a raster whose width is a power of two, the filtering step
  of \<^verbatim>\<open>main\<close> returns, for every \<open>alpha\<close>. The tree it leaves has as many nodes
  and levels as before. Every node keeps its mean and its variance, and is either
  exactly as before or was not uniform and has become uniform with epsilon 0.
\<close>

theorem filter_changes_only_uniform_and_epsilon:
  assumes "width img = 2 ^ n"
  shows "\<exists>q q'. build_quadtree_from_image img nodes0 = Some q \<and>
     main_filtrage q alpha = Some q' \<and>
     total_nodes q' = total_nodes q \<and> levels q' = levels q \<and>
     (\<forall>j. moyenne (nodes q' j) = moyenne (nodes q j) \<and> v (nodes q' j) = v (nodes q j) \<and>
          (nodes q' j = nodes q j \<or>
           u (nodes q j) = 0 \<and> nodes q' j = (nodes q j)\<lparr>epsilon := 0, u := 1\<rparr>))"
proof -
  from build_from_image [OF assms, of nodes0] obtain q where
    q: "build_quadtree_from_image img nodes0 = Some q" "tree_ok q"
    by blast
  from main_filtrage_first [OF q(2), of alpha] obtain q' where
    f: "main_filtrage q alpha = Some q'" "filtered q q'"
    by blast
  from f(2) have d: "total_nodes q' = total_nodes q" "levels q' = levels q"
    and n: "\<And>j. filtered_node (nodes q j) (nodes q' j)"
    by (simp_all add: filtered_def)
  have "moyenne (nodes q' j) = moyenne (nodes q j) \<and> v (nodes q' j) = v (nodes q j) \<and>
      (nodes q' j = nodes q j \<or>
       u (nodes q j) = 0 \<and> nodes q' j = (nodes q j)\<lparr>epsilon := 0, u := 1\<rparr>)" for j
    using n [of j] by (auto simp add: filtered_node_def)
  with q(1) f(1) d show ?thesis by blast
qed

theorem filter_changes_only_uniform_and_epsilon_witness:
  "\<exists>q q'. build_quadtree_from_image (raster 2 [10, 20, 40, 30]) junk_nodes = Some q \<and>
     main_filtrage q (Fin 2) = Some q' \<and> total_nodes q' = 5 \<and>
     moyenne (nodes q' 0) = 25 \<and> moyenne (nodes q' 4) = 40"
proof -
  have w: "width (raster 2 [10, 20, 40, 30]) = 2 ^ 1" by (simp add: raster_def)
  from filter_changes_only_uniform_and_epsilon [OF w, of junk_nodes "Fin 2"]
  obtain q q' where
    f: "build_quadtree_from_image (raster 2 [10, 20, 40, 30]) junk_nodes = Some q"
      "main_filtrage q (Fin 2) = Some q'" "total_nodes q' = total_nodes q"
      "\<And>j. moyenne (nodes q' j) = moyenne (nodes q j)"
    by blast
  from f(1) have "total_nodes q = 5" "moyenne (nodes q 0) = 25" "moyenne (nodes q 4) = 40"
    by (auto simp add: build_eval)
  with f show ?thesis by auto
qed

text \<open>
  C4. On the tree built from a raster whose width is a power of two, the filtering step
  of \<^verbatim>\<open>main\<close> returns a tree on which the same step, with the same \<open>alpha\<close>, returns
  the same tree again: every field of every node is as the first pass left it.
\<close>

theorem filter_twice:
  assumes "width img = 2 ^ n"
  shows "\<exists>q q1. build_quadtree_from_image img nodes0 = Some q \<and>
     main_filtrage q alpha = Some q1 \<and> main_filtrage q1 alpha = Some q1"
proof -
  from build_from_image [OF assms, of nodes0] obtain q where
    q: "build_quadtree_from_image img nodes0 = Some q" "tree_ok q"
    by blast
  from main_filtrage_first [OF q(2), of alpha] q(1) show ?thesis by blast
qed

theorem filter_twice_witness:
  "\<exists>q q1. build_quadtree_from_image (raster 2 [10, 20, 40, 30]) junk_nodes = Some q \<and>
     total_nodes q = 5 \<and> main_filtrage q (Fin 2) = Some q1 \<and>
     main_filtrage q1 (Fin 2) = Some q1"
proof -
  have w: "width (raster 2 [10, 20, 40, 30]) = 2 ^ 1" by (simp add: raster_def)
  from filter_twice [OF w, of junk_nodes "Fin 2"]
  obtain q q1 where
    f: "build_quadtree_from_image (raster 2 [10, 20, 40, 30]) junk_nodes = Some q"
      "main_filtrage q (Fin 2) = Some q1" "main_filtrage q1 (Fin 2) = Some q1"
    by blast
  from f(1) have "total_nodes q = 5" by (auto simp add: build_eval)
  with f show ?thesis by blast
qed

lemma build_flat:
  "build_quadtree_from_image (raster 2 [7, 7, 7, 7]) junk_nodes = Some flat_tree"
  by (simp add: build_eval flat_tree_def numeral_2_eq_2 [symmetric])

text \<open>
  The variance of a node built over four children with finite variances: it is finite
  and not negative, and it is zero only if the four children have the mean of the node.
\<close>

lemma m_diff2_Fin: "m_diff2 a b = Fin ((real_of_int (uint a - uint b))\<^sup>2)"
  by (simp add: m_diff2_def power2_eq_square)

lemma var_of_children:
  fixes a1 a2 a3 a4 :: real and moy b1 b2 b3 b4 :: u8
  defines "S \<equiv> (a1 * a1 + (real_of_int (uint moy - uint b1))\<^sup>2) +
      (a2 * a2 + (real_of_int (uint moy - uint b2))\<^sup>2) +
      (a3 * a3 + (real_of_int (uint moy - uint b3))\<^sup>2) +
      (a4 * a4 + (real_of_int (uint moy - uint b4))\<^sup>2)"
  shows "fdiv (fsqrt (fadd (fadd (fadd (fadd (Fin 0)
           (fadd (fmul (Fin a1) (Fin a1)) (m_diff2 moy b1)))
           (fadd (fmul (Fin a2) (Fin a2)) (m_diff2 moy b2)))
           (fadd (fmul (Fin a3) (Fin a3)) (m_diff2 moy b3)))
           (fadd (fmul (Fin a4) (Fin a4)) (m_diff2 moy b4)))) (Fin 4) = Fin (sqrt S / 4)"
    and "0 \<le> sqrt S / 4"
    and "sqrt S / 4 = 0 \<Longrightarrow> b1 = moy \<and> b2 = moy \<and> b3 = moy \<and> b4 = moy"
proof -
  have nn: "0 \<le> S" unfolding S_def by (intro add_nonneg_nonneg) simp_all
  have chain: "fadd (fadd (fadd (fadd (Fin 0)
           (fadd (fmul (Fin a1) (Fin a1)) (m_diff2 moy b1)))
           (fadd (fmul (Fin a2) (Fin a2)) (m_diff2 moy b2)))
           (fadd (fmul (Fin a3) (Fin a3)) (m_diff2 moy b3)))
           (fadd (fmul (Fin a4) (Fin a4)) (m_diff2 moy b4)) = Fin S"
    unfolding S_def by (simp add: m_diff2_Fin)
  from nn show "fdiv (fsqrt (fadd (fadd (fadd (fadd (Fin 0)
           (fadd (fmul (Fin a1) (Fin a1)) (m_diff2 moy b1)))
           (fadd (fmul (Fin a2) (Fin a2)) (m_diff2 moy b2)))
           (fadd (fmul (Fin a3) (Fin a3)) (m_diff2 moy b3)))
           (fadd (fmul (Fin a4) (Fin a4)) (m_diff2 moy b4)))) (Fin 4) = Fin (sqrt S / 4)"
    unfolding chain by (simp add: not_less [symmetric])
  from nn show "0 \<le> sqrt S / 4" by simp
  assume "sqrt S / 4 = 0"
  then have z: "S = 0" by simp
  have t: "0 \<le> a1 * a1" "0 \<le> a2 * a2" "0 \<le> a3 * a3" "0 \<le> a4 * a4"
    "0 \<le> (real_of_int (uint moy - uint b1))\<^sup>2" "0 \<le> (real_of_int (uint moy - uint b2))\<^sup>2"
    "0 \<le> (real_of_int (uint moy - uint b3))\<^sup>2" "0 \<le> (real_of_int (uint moy - uint b4))\<^sup>2"
    by simp_all
  from z t have "(real_of_int (uint moy - uint b1))\<^sup>2 = 0"
    "(real_of_int (uint moy - uint b2))\<^sup>2 = 0" "(real_of_int (uint moy - uint b3))\<^sup>2 = 0"
    "(real_of_int (uint moy - uint b4))\<^sup>2 = 0"
    unfolding S_def by linarith+
  then have "uint moy - uint b1 = 0" "uint moy - uint b2 = 0" "uint moy - uint b3 = 0"
    "uint moy - uint b4 = 0"
    by (simp_all only: power_eq_0_iff of_int_eq_0_iff)
  then have "uint b1 = uint moy" "uint b2 = uint moy" "uint b3 = uint moy" "uint b4 = uint moy"
    by linarith+
  then show "b1 = moy \<and> b2 = moy \<and> b3 = moy \<and> b4 = moy"
    by (simp only: word_uint_eq_iff simp_thms)
qed

text \<open>
  The builder and the two variance fields. Started with finite \<open>medvar\<close> and \<open>maxvar\<close>,
  the latter not negative, it leaves them finite and does not lower \<open>maxvar\<close>; the
  variance of the node it fills is finite, not negative and at most \<open>maxvar\<close>. If
  \<open>maxvar\<close> is zero at the end, then \<open>medvar\<close> is what it was and the node is uniform.
\<close>

lemma build_rec_var:
  assumes "maxvar q = Fin m" and "medvar q = Fin s" and "0 \<le> m"
  shows "\<exists>q' m' s' a. build_quadtree_rec q img (2 ^ d) i x y = Some q' \<and>
     maxvar q' = Fin m' \<and> medvar q' = Fin s' \<and> m \<le> m' \<and>
     v (nodes q' i) = Fin a \<and> 0 \<le> a \<and> a \<le> m' \<and>
     (m' = 0 \<longrightarrow> s' = s \<and> u (nodes q' i) = 1) \<and>
     (\<forall>j. \<not> below i d j \<longrightarrow> nodes q' j = nodes q j)"
  using assms
proof (induction d arbitrary: q i x y m s)
  case 0
  have "j \<noteq> i" if "\<not> below i 0 j" for j using that by auto
  with 0 show ?case
    by (subst build_quadtree_rec.simps) simp
next
  case (Suc d)
  from Suc.IH [OF Suc.prems, of "4 * i + 1" x y] obtain q1 m1 s1 a1 where
    q1: "build_quadtree_rec q img (2 ^ d) (4 * i + 1) x y = Some q1"
      "maxvar q1 = Fin m1" "medvar q1 = Fin s1" "m \<le> m1"
      "v (nodes q1 (4 * i + 1)) = Fin a1" "0 \<le> a1" "a1 \<le> m1"
      "m1 = 0 \<longrightarrow> s1 = s \<and> u (nodes q1 (4 * i + 1)) = 1"
      "\<And>j. \<not> below (4 * i + 1) d j \<Longrightarrow> nodes q1 j = nodes q j"
    by blast
  have p1: "0 \<le> m1" using Suc.prems(3) q1(4) by simp
  from Suc.IH [OF q1(2,3) p1, of "4 * i + 2" "x + 2 ^ d" y] obtain q2 m2 s2 a2 where
    q2: "build_quadtree_rec q1 img (2 ^ d) (4 * i + 2) (x + 2 ^ d) y = Some q2"
      "maxvar q2 = Fin m2" "medvar q2 = Fin s2" "m1 \<le> m2"
      "v (nodes q2 (4 * i + 2)) = Fin a2" "0 \<le> a2" "a2 \<le> m2"
      "m2 = 0 \<longrightarrow> s2 = s1 \<and> u (nodes q2 (4 * i + 2)) = 1"
      "\<And>j. \<not> below (4 * i + 2) d j \<Longrightarrow> nodes q2 j = nodes q1 j"
    by blast
  have p2: "0 \<le> m2" using p1 q2(4) by simp
  from Suc.IH [OF q2(2,3) p2, of "4 * i + 3" "x + 2 ^ d" "y + 2 ^ d"] obtain q3 m3 s3 a3 where
    q3: "build_quadtree_rec q2 img (2 ^ d) (4 * i + 3) (x + 2 ^ d) (y + 2 ^ d) = Some q3"
      "maxvar q3 = Fin m3" "medvar q3 = Fin s3" "m2 \<le> m3"
      "v (nodes q3 (4 * i + 3)) = Fin a3" "0 \<le> a3" "a3 \<le> m3"
      "m3 = 0 \<longrightarrow> s3 = s2 \<and> u (nodes q3 (4 * i + 3)) = 1"
      "\<And>j. \<not> below (4 * i + 3) d j \<Longrightarrow> nodes q3 j = nodes q2 j"
    by blast
  have p3: "0 \<le> m3" using p2 q3(4) by simp
  from Suc.IH [OF q3(2,3) p3, of "4 * i + 4" x "y + 2 ^ d"] obtain q4 m4 s4 a4 where
    q4: "build_quadtree_rec q3 img (2 ^ d) (4 * i + 4) x (y + 2 ^ d) = Some q4"
      "maxvar q4 = Fin m4" "medvar q4 = Fin s4" "m3 \<le> m4"
      "v (nodes q4 (4 * i + 4)) = Fin a4" "0 \<le> a4" "a4 \<le> m4"
      "m4 = 0 \<longrightarrow> s4 = s3 \<and> u (nodes q4 (4 * i + 4)) = 1"
      "\<And>j. \<not> below (4 * i + 4) d j \<Longrightarrow> nodes q4 j = nodes q3 j"
    by blast
  define q' where "q' = build_node q4 i"
  have ne: "(2::nat) ^ Suc d \<noteq> 1" and half: "(2::nat) ^ Suc d div 2 = 2 ^ d" by simp_all
  have res: "build_quadtree_rec q img (2 ^ Suc d) i x y = Some q'"
    by (subst build_quadtree_rec.simps)
       (simp only: ne half if_False Let_def q1(1) q2(1) q3(1) q4(1) Option.bind.simps q'_def)
  have k1: "nodes q4 (4 * i + 1) = nodes q1 (4 * i + 1)"
    using siblings(1) [OF below_self [of "4 * i + 1" d]] by (simp add: q4(9) q3(9) q2(9))
  have k2: "nodes q4 (4 * i + 2) = nodes q2 (4 * i + 2)"
    using siblings(2) [OF below_self [of "4 * i + 2" d]] by (simp add: q4(9) q3(9))
  have k3: "nodes q4 (4 * i + 3) = nodes q3 (4 * i + 3)"
    using siblings(3) [OF below_self [of "4 * i + 3" d]] by (simp add: q4(9))
  define moy :: u8 where "moy = of_nat (children_sum (nodes q4) i div 4)"
  define b1 b2 b3 b4 where "b1 = moyenne (nodes q4 (4 * i + 1))"
    and "b2 = moyenne (nodes q4 (4 * i + 2))" and "b3 = moyenne (nodes q4 (4 * i + 3))"
    and "b4 = moyenne (nodes q4 (4 * i + 4))"
  define S where "S = (a1 * a1 + (real_of_int (uint moy - uint b1))\<^sup>2) +
      (a2 * a2 + (real_of_int (uint moy - uint b2))\<^sup>2) +
      (a3 * a3 + (real_of_int (uint moy - uint b3))\<^sup>2) +
      (a4 * a4 + (real_of_int (uint moy - uint b4))\<^sup>2)"
  define a where "a = sqrt S / 4"
  note var = var_of_children [of a1 moy b1 a2 b2 a3 b3 a4 b4, folded S_def a_def]
  have vs: "v (nodes q4 (4 * i + 1)) = Fin a1" "v (nodes q4 (4 * i + 2)) = Fin a2"
    "v (nodes q4 (4 * i + 3)) = Fin a3" "v (nodes q4 (4 * i + 4)) = Fin a4"
    by (simp_all only: k1 k2 k3 q1(5) q2(5) q3(5) q4(5))
  have q'_eq: "q' = q4\<lparr>nodes := (nodes q4)(i :=
               \<lparr>moyenne = moy,
                epsilon = of_nat (children_sum (nodes q4) i mod 4),
                u = (if b1 = b2 \<and> b2 = b3 \<and> b3 = b4 \<and>
                        u (nodes q4 (4 * i + 1)) = 1 \<and> u (nodes q4 (4 * i + 2)) = 1 \<and>
                        u (nodes q4 (4 * i + 3)) = 1 \<and> u (nodes q4 (4 * i + 4)) = 1
                     then 1 else 0),
                v = Fin a\<rparr>),
            medvar := Fin (s4 + a),
            maxvar := (if m4 < a then Fin a else Fin m4)\<rparr>"
    unfolding q'_def build_node_unrolled Let_def vs
    by (simp only: var(1) moy_def [symmetric] b1_def [symmetric] b2_def [symmetric]
        b3_def [symmetric] b4_def [symmetric] q4(2,3) fadd.simps fgt.simps)
  define m' where "m' = max m4 a"
  have mv: "maxvar q' = Fin m'" "medvar q' = Fin (s4 + a)" "v (nodes q' i) = Fin a"
    by (simp_all add: q'_eq m'_def max_def)
  have ord: "m \<le> m'" "a \<le> m'" "m4 \<le> m'"
    using q1(4) q2(4) q3(4) q4(4) by (simp_all add: m'_def)
  have zero: "s4 + a = s \<and> u (nodes q' i) = 1" if "m' = 0"
  proof -
    from that ord var(2) have az: "a = 0" by simp
    from that ord(3) p3 q4(4) have m4: "m4 = 0" by simp
    with q4(4) p3 have m3: "m3 = 0" by simp
    with q3(4) p2 have m2: "m2 = 0" by simp
    with q2(4) p1 have m1: "m1 = 0" by simp
    from m1 m2 m3 m4 q1(8) q2(8) q3(8) q4(8) have
      ss: "s4 = s" and us: "u (nodes q1 (4 * i + 1)) = 1" "u (nodes q2 (4 * i + 2)) = 1"
        "u (nodes q3 (4 * i + 3)) = 1" "u (nodes q4 (4 * i + 4)) = 1"
      by simp_all
    from var(3) [OF az] have "b1 = b2 \<and> b2 = b3 \<and> b3 = b4" by simp
    moreover have "u (nodes q4 (4 * i + 1)) = 1" "u (nodes q4 (4 * i + 2)) = 1"
      "u (nodes q4 (4 * i + 3)) = 1"
      by (simp_all only: k1 k2 k3 us)
    ultimately have "u (nodes q' i) = 1" using us(4) by (simp add: q'_eq)
    then show ?thesis by (simp add: ss az)
  qed
  have "nodes q' j = nodes q j" if "\<not> below i (Suc d) j" for j
  proof -
    have "j \<noteq> i" using that by auto
    moreover have "\<not> below (4 * i + 1) d j" "\<not> below (4 * i + 2) d j"
      "\<not> below (4 * i + 3) d j" "\<not> below (4 * i + 4) d j"
      using that below_children [of i d j] by blast+
    ultimately show ?thesis by (simp add: q'_eq q4(9) q3(9) q2(9) q1(9))
  qed
  with res mv ord(1,2) var(2) zero show ?case by blast
qed

text \<open>
  C8, as amended. Take the tree built from a raster whose width is a power of two, and
  suppose its \<open>maxvar\<close> is 0, as for a uniform raster. The threshold \<^verbatim>\<open>main\<close> passes to
  the filter is \<^verbatim>\<open>medvar / maxvar\<close>, a division by zero of zero or of NaN: it is NaN, not
  0. The root is uniform, so the filter, for every \<open>alpha\<close>, returns 1 at once and
  leaves the tree as it is.
\<close>

theorem filter_uniform_input:
  assumes "width img = 2 ^ n"
  shows "\<exists>q. build_quadtree_from_image img nodes0 = Some q \<and>
     (maxvar q = Fin 0 \<longrightarrow>
        fdiv (medvar q) (maxvar q) = NaN \<and> u (nodes q 0) = 1 \<and>
        filtrage q 0 (fdiv (medvar q) (maxvar q)) alpha = Some (1, q))"
proof -
  define q0 where "q0 = create_empty_quadtree n nodes0"
  have z: "maxvar q0 = Fin 0" "medvar q0 = Fin 0"
    by (simp_all add: q0_def create_empty_quadtree_def Let_def)
  from build_rec_var [OF z order_refl, of img n 0 0 0] obtain q' m' s' where
    q': "build_quadtree_rec q0 img (2 ^ n) 0 0 0 = Some q'" "maxvar q' = Fin m'"
      "medvar q' = Fin s'" "m' = 0 \<longrightarrow> s' = 0 \<and> u (nodes q' 0) = 1"
    by blast
  define c where "c = real_of_int (int (total_nodes q') - 2 ^ (2 * levels q'))"
  define q where "q = q'\<lparr>medvar := fdiv (medvar q') (Fin c)\<rparr>"
  have b: "build_quadtree_from_image img nodes0 = Some q"
    by (simp add: build_quadtree_from_image_def assms ilog2_pow Let_def q'(1) q_def c_def
        flip: q0_def)
  have "fdiv (medvar q) (maxvar q) = NaN \<and> u (nodes q 0) = 1 \<and>
      filtrage q 0 (fdiv (medvar q) (maxvar q)) alpha = Some (1, q)" if "maxvar q = Fin 0"
  proof -
    from that q'(2) have "m' = 0" by (simp add: q_def)
    with q'(4) have s: "s' = 0" and r: "u (nodes q 0) = 1" by (simp_all add: q_def)
    have "medvar q = NaN \<or> medvar q = Fin 0"
      by (simp add: q_def q'(3) s signed_inf_def)
    with that have "fdiv (medvar q) (maxvar q) = NaN"
      by (auto simp add: signed_inf_def)
    moreover from r have "filtrage q 0 sg alpha = Some (1, q)" for sg
      by (subst filtrage.simps) simp
    ultimately show ?thesis using r by simp
  qed
  with b show ?thesis by blast
qed

theorem filter_uniform_input_witness:
  "build_quadtree_from_image (raster 2 [7, 7, 7, 7]) junk_nodes = Some flat_tree \<and>
   maxvar flat_tree = Fin 0 \<and> medvar flat_tree = Fin 0 \<and>
   fdiv (medvar flat_tree) (maxvar flat_tree) = NaN \<and> u (nodes flat_tree 0) = 1 \<and>
   filtrage flat_tree 0 (fdiv (medvar flat_tree) (maxvar flat_tree)) (Fin 2) =
     Some (1, flat_tree)"
proof -
  have w: "width (raster 2 [7, 7, 7, 7]) = 2 ^ 1" by (simp add: raster_def)
  have m: "maxvar flat_tree = Fin 0" "medvar flat_tree = Fin 0" by (simp_all add: flat_tree_def)
  from filter_uniform_input [OF w, of junk_nodes "Fin 2"] obtain q where
    q: "build_quadtree_from_image (raster 2 [7, 7, 7, 7]) junk_nodes = Some q"
      "maxvar q = Fin 0 \<longrightarrow>
        fdiv (medvar q) (maxvar q) = NaN \<and> u (nodes q 0) = 1 \<and>
        filtrage q 0 (fdiv (medvar q) (maxvar q)) (Fin 2) = Some (1, q)"
    by blast
  from q(1) have "q = flat_tree" by (simp add: build_flat)
  with q(2) m(1)
  have f: "fdiv (medvar flat_tree) (maxvar flat_tree) = NaN" "u (nodes flat_tree 0) = 1"
    "filtrage flat_tree 0 (fdiv (medvar flat_tree) (maxvar flat_tree)) (Fin 2) =
       Some (1, flat_tree)"
    by blast+
  show ?thesis by (intro conjI build_flat m f)
qed

text \<open>
  C8 as stated fails: for the uniform 2\<times>2 raster of value 7, \<open>maxvar\<close> and \<open>medvar\<close> are 0
  and the threshold \<^verbatim>\<open>medvar / maxvar\<close> is NaN, which is not 0.
\<close>

theorem sigma_of_uniform_input_counterexample:
  "build_quadtree_from_image (raster 2 [7, 7, 7, 7]) junk_nodes = Some flat_tree \<and>
   maxvar flat_tree = Fin 0 \<and>
   fdiv (medvar flat_tree) (maxvar flat_tree) = NaN \<and> NaN \<noteq> Fin 0"
  by (simp add: build_flat) (simp add: flat_tree_def signed_inf_def)

end
